theory Spec2Isabelle
  imports Complex_Main
begin

section \<open>Khmer NER service: data model\<close>

text \<open>
  A Python \<open>str\<close> is a sequence of Unicode code points; \<open>len\<close>, slicing, \<open>split\<close> and the
  regular expression engine all count code points. Khmer text lies outside the 8-bit
  characters of HOL's \<open>string\<close>, so a \<open>str\<close> is modelled as the list of its code points.
  ASCII literals of the source are written through \<open>ascii\<close>.
\<close>

type_synonym pystr = "nat list"

definition ascii :: "string \<Rightarrow> pystr" where
  "ascii s = map of_char s"

text \<open>The exceptions the modelled code can raise.\<close>

datatype error = ValueError | KeyError pystr | IndexError | RuntimeError | HTTPException nat

definition PAD :: pystr where
  "PAD = ascii ''<PAD>''"

definition UNK :: pystr where
  "UNK = ascii ''<UNK>''"

definition MAX_WORD_LEN :: nat where
  "MAX_WORD_LEN = 24"

text \<open>\<open>class EntityOut(BaseModel)\<close>; the offsets are \<open>Optional[int]\<close> in the source.\<close>

record EntityOut =
  e_text :: pystr
  e_label :: pystr
  e_score :: real
  e_start :: "int option"
  e_end :: "int option"

section \<open>Float arithmetic\<close>

text \<open>
  A Python \<open>float\<close> is an IEEE 754 binary64 number. It is modelled by the real number it
  denotes, and every arithmetic operation rounds its exact result to the nearest
  binary64 number, a tie going to the even significand. Infinities and NaN are not
  represented: the floats of this program are probabilities and their sums and means,
  far below the largest binary64 number.

  \<open>find_exponent lo hi y\<close> is by bisection the \<open>k\<close> from \<open>lo\<close> up to \<open>hi - 1\<close> with
  \<open>2 ^ k \<le> y < 2 ^ (k + 1)\<close>, or \<open>lo\<close> for a smaller \<open>y\<close>. A binary64 number of magnitude
  \<open>y\<close> has 53 significant bits, the last of weight \<open>2 ^ (k - 52)\<close>; below \<open>2 ^ - 1022\<close>
  the weight stays \<open>2 ^ - 1074\<close>.
\<close>

function find_exponent :: "int \<Rightarrow> int \<Rightarrow> real \<Rightarrow> int" where
  "find_exponent lo hi y =
     (if hi \<le> lo + 1 then lo
      else if 2 powi ((lo + hi) div 2) \<le> y then find_exponent ((lo + hi) div 2) hi y
      else find_exponent lo ((lo + hi) div 2) y)"
  by pat_completeness auto
termination
  by (relation "measure (\<lambda>(lo, hi, y). nat (hi - lo))") auto

definition round_half_even :: "real \<Rightarrow> int" where
  "round_half_even r =
     (if r - of_int \<lfloor>r\<rfloor> < 1 / 2 then \<lfloor>r\<rfloor>
      else if 1 / 2 < r - of_int \<lfloor>r\<rfloor> then \<lfloor>r\<rfloor> + 1
      else if even \<lfloor>r\<rfloor> then \<lfloor>r\<rfloor> else \<lfloor>r\<rfloor> + 1)"

definition binary64 :: "real \<Rightarrow> real" where
  "binary64 x =
     (let q = 2 powi (find_exponent (- 1022) 1024 \<bar>x\<bar> - 52)
      in of_int (round_half_even (x / q)) * q)"

text \<open>Float addition and division; the divisor of this program is never zero.\<close>

definition float_add :: "real \<Rightarrow> real \<Rightarrow> real" where
  "float_add a b = binary64 (a + b)"

definition float_div :: "real \<Rightarrow> real \<Rightarrow> real" where
  "float_div a b = binary64 (a / b)"

text \<open>
  The built-in \<open>sum\<close> on a list of floats: it starts from 0 and adds the elements from
  left to right, rounding after every addition.
\<close>

definition py_sum :: "real list \<Rightarrow> real" where
  "py_sum xs = foldl float_add 0 xs"

section \<open>Entity decoder\<close>

text \<open>
  The dictionary \<open>current\<close> of \<open>decode_entities\<close>, with its five keys
  \<open>"text"\<close>, \<open>"label"\<close>, \<open>"scores"\<close>, \<open>"start"\<close>, \<open>"end"\<close>.
\<close>

record current =
  c_text :: pystr
  c_label :: pystr
  c_scores :: "real list"
  c_start :: int
  c_end :: int

text \<open>
  The decoder's mutable state: the list \<open>entities\<close> and the variable \<open>current\<close>
  (\<open>None\<close> when no span is being accumulated).
\<close>

type_synonym decoder_state = "EntityOut list \<times> current option"

text \<open>
  The nested function \<open>flush\<close>. The score is
  \<open>sum(current["scores"]) / max(len(current["scores"]), 1)\<close> in float arithmetic.
\<close>

fun flush :: "decoder_state \<Rightarrow> decoder_state" where
  "flush (entities, None) = (entities, None)"
| "flush (entities, Some c) =
     (entities @
        [\<lparr>e_text = c_text c,
          e_label = c_label c,
          e_score = float_div (py_sum (c_scores c)) (real (max (length (c_scores c)) 1)),
          e_start = Some (c_start c),
          e_end = Some (c_end c)\<rparr>],
      None)"

text \<open>\<open>s.split(sep, 1)\<close> for a one-character separator: at most one cut, at the first \<open>sep\<close>.\<close>

definition py_split1 :: "nat \<Rightarrow> pystr \<Rightarrow> pystr list" where
  "py_split1 sep s =
     (if sep \<in> set s
      then [takeWhile (\<lambda>c. c \<noteq> sep) s, tl (dropWhile (\<lambda>c. c \<noteq> sep) s)]
      else [s])"

text \<open>
  \<open>prefix, tag = (label.split("-", 1) + [""])[:2] if "-" in label else ("B", label)\<close>.
  Unpacking a sequence that does not have exactly two elements raises \<open>ValueError\<close>.
\<close>

definition parse_label :: "pystr \<Rightarrow> error + (pystr \<times> pystr)" where
  "parse_label label =
     (if of_char CHR ''-'' \<in> set label
      then (case take 2 (py_split1 (of_char CHR ''-'') label @ [[]]) of
              [prefix, tag] \<Rightarrow> Inr (prefix, tag)
            | _ \<Rightarrow> Inl ValueError)
      else Inr (ascii ''B'', label))"

text \<open>One iteration of the \<open>for\<close> loop of \<open>decode_entities\<close>.\<close>

definition decode_step ::
  "decoder_state \<Rightarrow> pystr \<times> (int \<times> int) \<times> pystr \<times> real \<Rightarrow> error + decoder_state" where
  "decode_step st item =
     (case item of (token, sp, label, score) \<Rightarrow>
        if label = ascii ''O'' then Inr (flush st)
        else
          (case parse_label label of
             Inl err \<Rightarrow> Inl err
           | Inr (prefix, tag) \<Rightarrow>
               (case snd st of
                  None \<Rightarrow>
                    Inr (fst (flush st),
                         Some \<lparr>c_text = token, c_label = tag, c_scores = [score],
                               c_start = fst sp, c_end = snd sp\<rparr>)
                | Some c \<Rightarrow>
                    if prefix = ascii ''B'' \<or> c_label c \<noteq> tag
                    then Inr (fst (flush st),
                              Some \<lparr>c_text = token, c_label = tag, c_scores = [score],
                                    c_start = fst sp, c_end = snd sp\<rparr>)
                    else Inr (fst st,
                              Some (c\<lparr>c_text := c_text c @ ascii '' '' @ token,
                                      c_scores := c_scores c @ [score],
                                      c_end := snd sp\<rparr>)))))"

text \<open>The loop; an exception in an iteration ends it.\<close>

fun decode_loop ::
  "decoder_state \<Rightarrow> (pystr \<times> (int \<times> int) \<times> pystr \<times> real) list \<Rightarrow> error + decoder_state" where
  "decode_loop st [] = Inr st"
| "decode_loop st (item # items) =
     (case decode_step st item of
        Inl err \<Rightarrow> Inl err
      | Inr st' \<Rightarrow> decode_loop st' items)"

text \<open>\<open>zip(tokens, spans, labels, scores)\<close> stops at the shortest of the four lists.\<close>

definition zip4 :: "'a list \<Rightarrow> 'b list \<Rightarrow> 'c list \<Rightarrow> 'd list \<Rightarrow> ('a \<times> 'b \<times> 'c \<times> 'd) list" where
  "zip4 as bs cs ds = zip as (zip bs (zip cs ds))"

definition decode_entities ::
  "pystr list \<Rightarrow> (int \<times> int) list \<Rightarrow> pystr list \<Rightarrow> real list \<Rightarrow> error + EntityOut list" where
  "decode_entities tokens spans labels scores =
     (case decode_loop ([], None) (zip4 tokens spans labels scores) of
        Inl err \<Rightarrow> Inl err
      | Inr st \<Rightarrow> Inr (fst (flush st)))"

section \<open>Text normalizer and whitespace tokenizer\<close>

text \<open>
  \<open>normalize_text\<close>: NFC normalization, then removal of every U+200B and every U+FEFF.
  The NFC tables of \<open>unicodedata\<close> are a parameter \<open>nfc\<close> of the model.
\<close>

definition normalize_text :: "(pystr \<Rightarrow> pystr) \<Rightarrow> pystr \<Rightarrow> pystr" where
  "normalize_text nfc s = filter (\<lambda>c. c \<noteq> 65279) (filter (\<lambda>c. c \<noteq> 8203) (nfc s))"

text \<open>
  The code points that Python takes as whitespace, in \<open>str.strip()\<close> and in the class
  \<open>\s\<close> of a \<open>str\<close> pattern alike.
\<close>

definition py_isspace :: "nat \<Rightarrow> bool" where
  "py_isspace c \<longleftrightarrow>
     (9 \<le> c \<and> c \<le> 13) \<or> (28 \<le> c \<and> c \<le> 32) \<or> c = 133 \<or> c = 160 \<or> c = 5760 \<or>
     (8192 \<le> c \<and> c \<le> 8202) \<or> c = 8232 \<or> c = 8233 \<or> c = 8239 \<or> c = 8287 \<or> c = 12288"

text \<open>
  \<open>re.finditer(r"\S+", text)\<close>: the maximal runs of non-whitespace, left to right, each
  with \<open>group(0)\<close>, \<open>start()\<close> and \<open>end()\<close>. The scan is at index \<open>i\<close>; the second argument
  is the match in progress, its start and the characters read so far.
\<close>

fun finditer_nonspace :: "nat \<Rightarrow> (nat \<times> pystr) option \<Rightarrow> pystr \<Rightarrow> (pystr \<times> nat \<times> nat) list" where
  "finditer_nonspace i None [] = []"
| "finditer_nonspace i (Some (s, tok)) [] = [(tok, s, i)]"
| "finditer_nonspace i None (c # cs) =
     (if py_isspace c then finditer_nonspace (Suc i) None cs
      else finditer_nonspace (Suc i) (Some (i, [c])) cs)"
| "finditer_nonspace i (Some (s, tok)) (c # cs) =
     (if py_isspace c then (tok, s, i) # finditer_nonspace (Suc i) None cs
      else finditer_nonspace (Suc i) (Some (s, tok @ [c])) cs)"

definition ws_tokens_with_spans :: "pystr \<Rightarrow> pystr list \<times> (int \<times> int) list" where
  "ws_tokens_with_spans text =
     (let matches = finditer_nonspace 0 None text
      in (map fst matches, map (\<lambda>(tok, s, e). (int s, int e)) matches))"

section \<open>Character vocabulary and word encoder\<close>

text \<open>
  \<open>build_char_vocab\<close>. The set \<open>chars\<close> holds the characters \<open>ch\<close> of the normalized
  words for which \<open>ch.strip()\<close> is non-empty; \<open>sorted\<close> orders one-character strings by
  code point. The dictionary comprehension stores the pairs of \<open>enumerate(idx2char)\<close> in
  order, a later pair replacing an earlier one with the same key.
\<close>

definition vocab_chars :: "(pystr \<Rightarrow> pystr) \<Rightarrow> pystr list \<Rightarrow> nat set" where
  "vocab_chars nfc words =
     set (filter (\<lambda>ch. \<not> py_isspace ch) (concat (map (normalize_text nfc) words)))"

definition idx2char :: "(pystr \<Rightarrow> pystr) \<Rightarrow> pystr list \<Rightarrow> pystr list" where
  "idx2char nfc words = [PAD, UNK] @ map (\<lambda>ch. [ch]) (sorted_list_of_set (vocab_chars nfc words))"

definition build_char_vocab :: "(pystr \<Rightarrow> pystr) \<Rightarrow> pystr list \<Rightarrow> (pystr \<rightharpoonup> nat)" where
  "build_char_vocab nfc words =
     fold (\<lambda>(i, c) m. m(c \<mapsto> i)) (enumerate 0 (idx2char nfc words)) Map.empty"

text \<open>
  The loop of \<open>encode_word\<close>: \<open>vocab.get(ch, vocab[UNK])\<close> evaluates \<open>vocab[UNK]\<close> at every
  character, which raises \<open>KeyError\<close> when the key is missing.
\<close>

fun encode_chars :: "(pystr \<rightharpoonup> nat) \<Rightarrow> pystr \<Rightarrow> error + nat list" where
  "encode_chars vocab [] = Inr []"
| "encode_chars vocab (ch # chs) =
     (case vocab UNK of
        None \<Rightarrow> Inl (KeyError UNK)
      | Some unk \<Rightarrow>
          (case encode_chars vocab chs of
             Inl err \<Rightarrow> Inl err
           | Inr ids \<Rightarrow> Inr ((case vocab [ch] of None \<Rightarrow> unk | Some i \<Rightarrow> i) # ids)))"

definition encode_word :: "(pystr \<Rightarrow> pystr) \<Rightarrow> pystr \<Rightarrow> (pystr \<rightharpoonup> nat) \<Rightarrow> error + nat list" where
  "encode_word nfc word vocab =
     (case encode_chars vocab (take MAX_WORD_LEN (normalize_text nfc word)) of
        Inl err \<Rightarrow> Inl err
      | Inr ids \<Rightarrow>
          if length ids < MAX_WORD_LEN
          then (case vocab PAD of
                  None \<Rightarrow> Inl (KeyError PAD)
                | Some pad \<Rightarrow> Inr (ids @ replicate (MAX_WORD_LEN - length ids) pad))
          else Inr ids)"

definition true_char_len :: "(pystr \<Rightarrow> pystr) \<Rightarrow> pystr \<Rightarrow> nat" where
  "true_char_len nfc word = min (length (normalize_text nfc word)) MAX_WORD_LEN"

section \<open>Recurrent encoders and the endpoint\<close>

text \<open>
  The trained parameters of \<open>NerModel\<close>: the rows of the embedding table of the character
  encoder (\<open>vocab_size\<close> of them), the cell and the initial hidden state of its GRU, the
  bidirectional context GRU, and the linear head giving one logit per label. The GRU
  cells and the head are functions of the model.
\<close>

record ('e, 'h, 'o) NerModel =
  emb :: "'e list"
  rnn_cell :: "'h \<Rightarrow> 'e \<Rightarrow> 'h"
  rnn_h0 :: 'h
  ctx_rnn :: "'h list \<Rightarrow> 'o list"
  bio_head :: "'o \<Rightarrow> real list"

text \<open>
  \<open>self.emb(x)\<close>: every id of the batch is looked up, the ids at padding positions
  included; an id that is not a row of the table raises \<open>IndexError\<close>.
\<close>

definition embedding :: "'e list \<Rightarrow> nat list list \<Rightarrow> error + 'e list list" where
  "embedding table x =
     (if \<forall>row \<in> set x. \<forall>i \<in> set row. i < length table
      then Inr (map (map (\<lambda>i. table ! i)) x)
      else Inl IndexError)"

text \<open>
  \<open>pack_padded_sequence(emb, lengths, batch_first=True, enforce_sorted=False)\<close>. The rows
  are selected by the positions of the sorted lengths: more lengths than rows raise
  \<open>IndexError\<close>, and with fewer lengths only the first rows are packed. A selection
  without elements raises \<open>RuntimeError\<close>, and so does a length below 1. A packed batch
  holds, for every selected row, its first \<open>lengths[i]\<close> steps and nothing of the padding.
  A length beyond the width of its row leaves the packed batch short of the steps it
  announces, on which the GRU raises \<open>RuntimeError\<close>; that error is placed here.
\<close>

definition pack_padded_sequence :: "'e list list \<Rightarrow> int list \<Rightarrow> error + 'e list list" where
  "pack_padded_sequence rows lengths =
     (if length rows < length lengths then Inl IndexError
      else if concat (take (length lengths) rows) = [] then Inl RuntimeError
      else if (\<exists>l \<in> set lengths. l \<le> 0)
              \<or> (\<exists>(row, l) \<in> set (zip rows lengths). int (length row) < l)
      then Inl RuntimeError
      else Inr (map (\<lambda>(row, l). take (nat l) row) (zip rows lengths)))"

text \<open>
  \<open>_, h = self.rnn(packed)\<close>: the final hidden state of a one-layer, one-direction GRU on a
  packed batch is, for every row, the state after the row's own steps.
\<close>

definition rnn_final :: "('e, 'h, 'o) NerModel \<Rightarrow> 'e list list \<Rightarrow> 'h list" where
  "rnn_final m packed = map (foldl (rnn_cell m) (rnn_h0 m)) packed"

text \<open>\<open>CharEncoder.forward\<close>.\<close>

definition CharEncoder_forward ::
  "('e, 'h, 'o) NerModel \<Rightarrow> nat list list \<Rightarrow> int list \<Rightarrow> error + 'h list" where
  "CharEncoder_forward m x lengths =
     (case embedding (emb m) x of
        Inl err \<Rightarrow> Inl err
      | Inr embedded \<Rightarrow>
          (case pack_padded_sequence embedded lengths of
             Inl err \<Rightarrow> Inl err
           | Inr packed \<Rightarrow> Inr (rnn_final m packed)))"

text \<open>\<open>torch.clamp(lengths_flat, min=1)\<close>.\<close>

definition clamp_min :: "int \<Rightarrow> int list \<Rightarrow> int list" where
  "clamp_min lo lengths = map (max lo) lengths"

text \<open>
  \<open>NerModel.forward\<close> for the batch of one sentence that \<open>ner\<close> submits: \<open>x\<close> is the list
  of encoded words, all of one width, and \<open>lengths\<close> the list of their lengths. Without
  a word the tensor \<open>x\<close> has no three dimensions and unpacking \<open>x.shape\<close> raises
  \<open>ValueError\<close>; \<open>lengths.view(bsz * seq_len)\<close> raises \<open>RuntimeError\<close> unless there is
  one length per word. The result has one row of logits per token. The source does not
  read its third argument \<open>mask\<close>.
\<close>

definition NerModel_forward ::
  "('e, 'h, 'o) NerModel \<Rightarrow> nat list list \<Rightarrow> int list \<Rightarrow> error + real list list" where
  "NerModel_forward m x lengths =
     (if x = [] then Inl ValueError
      else if length lengths \<noteq> length x then Inl RuntimeError
      else
        (let lengths_safe = clamp_min 1 lengths
         in case CharEncoder_forward m x lengths_safe of
              Inl err \<Rightarrow> Inl err
            | Inr h \<Rightarrow> Inr (map (bio_head m) (ctx_rnn m h))))"

text \<open>
  \<open>torch.argmax(probs, dim=-1)\<close> and \<open>probs.max(dim=-1).values\<close> on one row. Of several
  maximal entries \<open>argmax\<close> returns the index of the first; a row without entries raises
  \<open>IndexError\<close>. The scan keeps the best index and value seen so far and replaces them
  only by a strictly larger entry.
\<close>

fun argmax_scan :: "nat \<Rightarrow> 'a::linorder \<Rightarrow> nat \<Rightarrow> 'a list \<Rightarrow> nat" where
  "argmax_scan best v i [] = best"
| "argmax_scan best v i (p # ps) =
     (if v < p then argmax_scan i p (Suc i) ps else argmax_scan best v (Suc i) ps)"

fun torch_argmax :: "'a::linorder list \<Rightarrow> error + nat" where
  "torch_argmax [] = Inl IndexError"
| "torch_argmax (p # ps) = Inr (argmax_scan 0 p 1 ps)"

fun torch_max :: "'a::linorder list \<Rightarrow> error + 'a" where
  "torch_max [] = Inl IndexError"
| "torch_max (p # ps) = Inr (fold max ps p)"

text \<open>The results of a list of computations, or the first error among them.\<close>

fun collect :: "(error + 'a) list \<Rightarrow> error + 'a list" where
  "collect [] = Inr []"
| "collect (r # rs) =
     (case r of
        Inl err \<Rightarrow> Inl err
      | Inr v \<Rightarrow> (case collect rs of Inl err \<Rightarrow> Inl err | Inr vs \<Rightarrow> Inr (v # vs)))"

text \<open>\<open>str(idx)\<close> for a class index, which is never negative.\<close>

fun py_str :: "nat \<Rightarrow> pystr" where
  "py_str n = (if n < 10 then [48 + n] else py_str (n div 10) @ [48 + n mod 10])"

text \<open>\<open>[id2label.get(str(idx), "O") for idx in pred_ids]\<close>.\<close>

definition pred_labels :: "(pystr \<rightharpoonup> pystr) \<Rightarrow> nat list \<Rightarrow> pystr list" where
  "pred_labels id2label pred_ids =
     map (\<lambda>idx. case id2label (py_str idx) of None \<Rightarrow> ascii ''O'' | Some l \<Rightarrow> l) pred_ids"

text \<open>The module's globals \<open>model\<close>, \<open>id2label\<close> and \<open>char2idx\<close>; \<open>None\<close> until loaded.\<close>

record ('e, 'h, 'o) globals =
  model :: "('e, 'h, 'o) NerModel option"
  id2label :: "(pystr \<rightharpoonup> pystr) option"
  char2idx :: "(pystr \<rightharpoonup> nat) option"

text \<open>\<open>class NerOut(BaseModel)\<close>.\<close>

record NerOut =
  o_text :: pystr
  o_entities :: "EntityOut list"

text \<open>
  The endpoint \<open>ner\<close>; its last argument is \<open>inp.text\<close>. \<open>torch.softmax(logits, dim=-1)\<close>
  is computed by the library in single precision; it is the parameter \<open>softmax\<close>, applied
  to each row of logits.
\<close>

definition ner ::
  "(pystr \<Rightarrow> pystr) \<Rightarrow> (real list \<Rightarrow> real list) \<Rightarrow> ('e, 'h, 'o) globals \<Rightarrow> pystr
     \<Rightarrow> error + NerOut" where
  "ner nfc softmax g inp_text =
     (if inp_text = [] then Inl (HTTPException 400)
      else
        (case (model g, id2label g, char2idx g) of
           (Some m, Some i2l, Some c2i) \<Rightarrow>
             (let text = normalize_text nfc inp_text;
                  (tokens, spans) = ws_tokens_with_spans text
              in if tokens = [] then Inr \<lparr>o_text = text, o_entities = []\<rparr>
                 else
                   (case collect (map (\<lambda>w. encode_word nfc w c2i) tokens) of
                      Inl err \<Rightarrow> Inl err
                    | Inr x \<Rightarrow>
                        (let lc = map (\<lambda>w. int (true_char_len nfc w)) tokens
                         in case NerModel_forward m x lc of
                              Inl err \<Rightarrow> Inl err
                            | Inr logits \<Rightarrow>
                                (let probs = map softmax logits
                                 in case collect (map torch_argmax probs) of
                                      Inl err \<Rightarrow> Inl err
                                    | Inr pred_ids \<Rightarrow>
                                        (case collect (map torch_max probs) of
                                           Inl err \<Rightarrow> Inl err
                                         | Inr pred_scores \<Rightarrow>
                                             (let labels = pred_labels i2l pred_ids
                                              in case decode_entities tokens spans labels pred_scores of
                                                   Inl err \<Rightarrow> Inl err
                                                 | Inr entities \<Rightarrow>
                                                     Inr \<lparr>o_text = text, o_entities = entities\<rparr>))))))
         | _ \<Rightarrow> Inl (HTTPException 503)))"

section \<open>Orderings of spans\<close>

text \<open>
  A list of half-open spans is ordered when every span is non-empty and every span ends
  no later than any span after it starts. These are the spans of tokens read left to
  right without overlap.
\<close>

definition spans_ordered :: "(int \<times> int) list \<Rightarrow> bool" where
  "spans_ordered xs \<longleftrightarrow> (\<forall>(s, t) \<in> set xs. s < t) \<and> sorted_wrt (\<lambda>a b. snd a \<le> fst b) xs"

text \<open>The offsets of an entity, when both are present.\<close>

definition entity_offsets :: "EntityOut \<Rightarrow> (int \<times> int) option" where
  "entity_offsets e =
     (case (e_start e, e_end e) of (Some s, Some t) \<Rightarrow> Some (s, t) | _ \<Rightarrow> None)"

text \<open>The offsets held by a decoder state: those of the entities, then those of \<open>current\<close>.\<close>

definition state_spans :: "decoder_state \<Rightarrow> (int \<times> int) option list" where
  "state_spans st =
     map entity_offsets (fst st)
       @ (case snd st of None \<Rightarrow> [] | Some c \<Rightarrow> [Some (c_start c, c_end c)])"

section \<open>Properties of the entity decoder\<close>

lemma parse_label_total:
  "parse_label label =
     Inr (if of_char CHR ''-'' \<in> set label
          then (takeWhile (\<lambda>c. c \<noteq> of_char CHR ''-'') label,
                tl (dropWhile (\<lambda>c. c \<noteq> of_char CHR ''-'') label))
          else (ascii ''B'', label))"
  by (simp add: parse_label_def py_split1_def)

lemmas float_eval = py_sum_def float_add_def float_div_def binary64_def round_half_even_def

text \<open>
  Claim C1, as stated, fails in the score of the first entity. The floats written 0.9
  and 0.8 add up, after rounding, to 7656119366529844 / 2 ^ 52, and half of that is
  7656119366529844 / 2 ^ 53, printed 0.8500000000000001. It is neither the number 0.85
  nor the float written 0.85, which is 7656119366529843 / 2 ^ 53. The token spans are
  those of the tokenizer on the five tokens joined by single spaces.
\<close>

theorem bio_scenario_score_differs:
  "decode_entities
     [[6021, 6035], [6034, 6072], [6042, 6047, 6091], [6035, 6085],
      [6039, 6098, 6035, 6086, 6038, 6081, 6025]]
     [(0, 2), (3, 5), (6, 9), (10, 12), (13, 20)]
     [ascii ''B-PER'', ascii ''I-PER'', ascii ''O'', ascii ''O'', ascii ''B-LOC'']
     [binary64 0.9, binary64 0.8, binary64 0.6, binary64 0.7, binary64 0.95]
   = Inr [\<lparr>e_text = [6021, 6035, 32, 6034, 6072], e_label = ascii ''PER'',
            e_score = 7656119366529844 / 2 ^ 53, e_start = Some 0, e_end = Some 5\<rparr>,
          \<lparr>e_text = [6039, 6098, 6035, 6086, 6038, 6081, 6025], e_label = ascii ''LOC'',
            e_score = binary64 0.95, e_start = Some 13, e_end = Some 20\<rparr>]
   \<and> (7656119366529844 / 2 ^ 53 :: real) \<noteq> 0.85
   \<and> (7656119366529844 / 2 ^ 53 :: real) \<noteq> binary64 0.85
   \<and> binary64 0.85 = 7656119366529843 / 2 ^ 53"
  by (simp add: decode_entities_def zip4_def decode_step_def parse_label_total ascii_def
      float_eval)

text \<open>
  Claim C1, amended. The decoder run on the five tokens of the Khmer sentence (given as
  code points), labelled B-PER, I-PER, O, O, B-LOC, with the floats written 0.9, 0.8,
  0.6, 0.7, 0.95 as scores and arbitrary token spans, returns exactly two entities: the
  first two tokens joined by one space as PER, from the start of token 0 to the end of
  token 1, with the float mean of the first two scores, which is
  7656119366529844 / 2 ^ 53 and differs from 0.85 by less than 2 ^ - 52; then the last
  token as LOC with the float 0.95 as score and the offsets of token 4.
\<close>

theorem decode_entities_bio_scenario:
  "decode_entities
     [[6021, 6035], [6034, 6072], [6042, 6047, 6091], [6035, 6085],
      [6039, 6098, 6035, 6086, 6038, 6081, 6025]]
     [(s0, t0), (s1, t1), (s2, t2), (s3, t3), (s4, t4)]
     [ascii ''B-PER'', ascii ''I-PER'', ascii ''O'', ascii ''O'', ascii ''B-LOC'']
     [binary64 0.9, binary64 0.8, binary64 0.6, binary64 0.7, binary64 0.95]
   = Inr [\<lparr>e_text = [6021, 6035, 32, 6034, 6072], e_label = ascii ''PER'',
            e_score = 7656119366529844 / 2 ^ 53, e_start = Some s0, e_end = Some t1\<rparr>,
          \<lparr>e_text = [6039, 6098, 6035, 6086, 6038, 6081, 6025], e_label = ascii ''LOC'',
            e_score = binary64 0.95, e_start = Some s4, e_end = Some t4\<rparr>]
   \<and> \<bar>7656119366529844 / 2 ^ 53 - 0.85 :: real\<bar> < 1 / 2 ^ 52"
  by (simp add: decode_entities_def zip4_def decode_step_def parse_label_total ascii_def
      float_eval)

lemma decode_step_total: "\<exists>st'. decode_step st item = Inr st'"
  by (cases item) (auto simp: decode_step_def parse_label_total split: option.splits)

lemma decode_loop_total: "\<exists>st'. decode_loop st items = Inr st'"
proof (induction items arbitrary: st)
  case Nil
  show ?case by simp
next
  case (Cons item items)
  obtain st1 where "decode_step st item = Inr st1"
    using decode_step_total by blast
  with Cons.IH [of st1] show ?case by simp
qed

lemma decode_entities_total: "\<exists>ents. decode_entities tokens spans labels scores = Inr ents"
proof -
  obtain st where "decode_loop ([], None) (zip4 tokens spans labels scores) = Inr st"
    using decode_loop_total by blast
  then show ?thesis by (simp add: decode_entities_def)
qed

text \<open>
  Claim C2, as stated, fails. A label that has a dash but a prefix other than B or I,
  such as X-PER, is not taken as a fresh start: while a PER span is being accumulated the
  token is appended to it, where the label B-PER would have closed the span and opened a
  second one.
\<close>

theorem unrecognized_prefix_continues_span:
  "decode_entities [[97], [98]] [(0, 1), (2, 3)] [ascii ''B-PER'', ascii ''X-PER''] [1, 1]
     = Inr [\<lparr>e_text = [97, 32, 98], e_label = ascii ''PER'', e_score = 1,
              e_start = Some 0, e_end = Some 3\<rparr>]
   \<and> decode_entities [[97], [98]] [(0, 1), (2, 3)] [ascii ''B-PER'', ascii ''B-PER''] [1, 1]
     = Inr [\<lparr>e_text = [97], e_label = ascii ''PER'', e_score = 1,
              e_start = Some 0, e_end = Some 1\<rparr>,
            \<lparr>e_text = [98], e_label = ascii ''PER'', e_score = 1,
              e_start = Some 2, e_end = Some 3\<rparr>]"
  by (simp add: decode_entities_def zip4_def decode_step_def parse_label_total ascii_def
      float_eval)

text \<open>
  Claim C2, amended. For a token labelled I-T: when the decoder is accumulating a span of
  type T, the token is appended (text joined with one space, score appended, end offset
  replaced by the token's end); when the decoder is outside a span or accumulating
  another type, the step is the one taken for the label B-T, which flushes the current
  span and starts a span of type T holding this token alone. A label other than O that
  has no dash is handled as B followed by a dash and the whole label. A label with a
  dash whose prefix is not B is handled like the I label of the same type. No label makes
  the decoder raise: it always returns an entity list.
\<close>

theorem decode_step_inside_label:
  "(snd st = Some c \<and> c_label c = T \<longrightarrow>
      decode_step st (token, sp, ascii ''I-'' @ T, score)
        = Inr (fst st, Some (c\<lparr>c_text := c_text c @ ascii '' '' @ token,
                                 c_scores := c_scores c @ [score],
                                 c_end := snd sp\<rparr>)))
   \<and> (snd st = None \<or> (\<exists>c'. snd st = Some c' \<and> c_label c' \<noteq> T) \<longrightarrow>
      decode_step st (token, sp, ascii ''I-'' @ T, score)
        = decode_step st (token, sp, ascii ''B-'' @ T, score))
   \<and> decode_step st (token, sp, ascii ''B-'' @ T, score)
        = Inr (fst (flush st),
               Some \<lparr>c_text = token, c_label = T, c_scores = [score],
                     c_start = fst sp, c_end = snd sp\<rparr>)
   \<and> (of_char CHR ''-'' \<notin> set label \<and> label \<noteq> ascii ''O'' \<longrightarrow>
      decode_step st (token, sp, label, score)
        = decode_step st (token, sp, ascii ''B-'' @ label, score))
   \<and> (of_char CHR ''-'' \<notin> set p \<and> p \<noteq> ascii ''B'' \<longrightarrow>
      decode_step st (token, sp, p @ ascii ''-'' @ T, score)
        = decode_step st (token, sp, ascii ''I-'' @ T, score))
   \<and> (\<exists>ents. decode_entities tokens spans labels scores = Inr ents)"
proof (intro conjI impI)
  assume "snd st = Some c \<and> c_label c = T"
  then show "decode_step st (token, sp, ascii ''I-'' @ T, score)
        = Inr (fst st, Some (c\<lparr>c_text := c_text c @ ascii '' '' @ token,
                                 c_scores := c_scores c @ [score],
                                 c_end := snd sp\<rparr>))"
    by (cases st) (auto simp: decode_step_def parse_label_total ascii_def)
next
  assume "snd st = None \<or> (\<exists>c'. snd st = Some c' \<and> c_label c' \<noteq> T)"
  then show "decode_step st (token, sp, ascii ''I-'' @ T, score)
        = decode_step st (token, sp, ascii ''B-'' @ T, score)"
    by (cases st) (auto simp: decode_step_def parse_label_total ascii_def)
next
  show "decode_step st (token, sp, ascii ''B-'' @ T, score)
        = Inr (fst (flush st),
               Some \<lparr>c_text = token, c_label = T, c_scores = [score],
                     c_start = fst sp, c_end = snd sp\<rparr>)"
    by (cases st; cases "snd st") (auto simp: decode_step_def parse_label_total ascii_def)
next
  assume "of_char CHR ''-'' \<notin> set label \<and> label \<noteq> ascii ''O''"
  then show "decode_step st (token, sp, label, score)
        = decode_step st (token, sp, ascii ''B-'' @ label, score)"
    by (cases st; cases "snd st") (auto simp: decode_step_def parse_label_total ascii_def)
next
  assume "of_char CHR ''-'' \<notin> set p \<and> p \<noteq> ascii ''B''"
  then show "decode_step st (token, sp, p @ ascii ''-'' @ T, score)
        = decode_step st (token, sp, ascii ''I-'' @ T, score)"
    by (cases st; cases "snd st"; cases p)
      (auto simp: decode_step_def parse_label_total ascii_def takeWhile_append dropWhile_append)
next
  show "\<exists>ents. decode_entities tokens spans labels scores = Inr ents"
    by (rule decode_entities_total)
qed

theorem decode_step_inside_label_witness:
  "decode_step ([], Some \<lparr>c_text = [97], c_label = ascii ''LOC'', c_scores = [1],
                          c_start = 0, c_end = 1\<rparr>)
     ([98], (2, 3), ascii ''I-LOC'', 1 / 2)
     = Inr ([], Some \<lparr>c_text = [97, 32, 98], c_label = ascii ''LOC'', c_scores = [1, 1 / 2],
                       c_start = 0, c_end = 3\<rparr>)
   \<and> decode_step ([], None) ([98], (2, 3), ascii ''I-LOC'', 1 / 2)
     = decode_step ([], None) ([98], (2, 3), ascii ''B-LOC'', 1 / 2)
   \<and> decode_step ([], None) ([98], (2, 3), ascii ''LOC'', 1 / 2)
     = decode_step ([], None) ([98], (2, 3), ascii ''B-LOC'', 1 / 2)
   \<and> decode_step ([], None) ([98], (2, 3), ascii ''X-LOC'', 1 / 2)
     = decode_step ([], None) ([98], (2, 3), ascii ''I-LOC'', 1 / 2)
   \<and> (\<exists>ents. decode_entities [[97], [98]] [(0, 1), (2, 3)] [ascii ''I-LOC'', ascii ''O'']
               [1, 1 / 2] = Inr ents)"
  using
    decode_step_inside_label
      [of "([], Some \<lparr>c_text = [97], c_label = ascii ''LOC'', c_scores = [1],
                        c_start = 0, c_end = 1\<rparr>)"
          "\<lparr>c_text = [97], c_label = ascii ''LOC'', c_scores = [1], c_start = 0, c_end = 1\<rparr>"
          "ascii ''LOC''" "[98]" "(2, 3)" "1 / 2" "ascii ''LOC''" "ascii ''X''"
          "[[97], [98]]" "[(0, 1), (2, 3)]" "[ascii ''I-LOC'', ascii ''O'']" "[1, 1 / 2]"]
    decode_step_inside_label
      [of "([], None)"
          "\<lparr>c_text = [97], c_label = ascii ''LOC'', c_scores = [1], c_start = 0, c_end = 1\<rparr>"
          "ascii ''LOC''" "[98]" "(2, 3)" "1 / 2" "ascii ''LOC''"
          "ascii ''X''"]
  by (simp add: ascii_def)

section \<open>Properties of the character vocabulary and the word encoder\<close>

lemma fold_enumerate_notin:
  "k \<notin> set xs \<Longrightarrow> fold (\<lambda>(i, c) m. m(c \<mapsto> i)) (enumerate n xs) m k = m k"
  by (induction xs arbitrary: n m) auto

lemma fold_enumerate_nth:
  "distinct xs \<Longrightarrow> i < length xs \<Longrightarrow>
   fold (\<lambda>(i, c) m. m(c \<mapsto> i)) (enumerate n xs) m (xs ! i) = Some (n + i)"
proof (induction xs arbitrary: n m i)
  case Nil
  then show ?case by simp
next
  case (Cons x xs)
  show ?case
  proof (cases i)
    case 0
    with Cons.prems fold_enumerate_notin [of x xs "Suc n" "m(x \<mapsto> n)"] show ?thesis
      by (simp del: fun_upd_apply add: fun_upd_same)
  next
    case (Suc j)
    with Cons.prems Cons.IH [of j "Suc n" "m(x \<mapsto> n)"] show ?thesis by simp
  qed
qed

lemma dom_fold_enumerate:
  "dom (fold (\<lambda>(i, c) m. m(c \<mapsto> i)) (enumerate n xs) m) = dom m \<union> set xs"
  by (induction xs arbitrary: n m) auto

lemma PAD_neq_UNK: "PAD \<noteq> UNK"
  by (simp add: PAD_def UNK_def ascii_def)

lemma PAD_not_char: "PAD \<noteq> [ch]" and UNK_not_char: "UNK \<noteq> [ch]"
  by (simp_all add: PAD_def UNK_def ascii_def)

lemma distinct_idx2char: "distinct (idx2char nfc words)"
proof -
  have "distinct (map (\<lambda>ch. [ch]) (sorted_list_of_set (vocab_chars nfc words)))"
    by (simp add: distinct_map inj_on_def)
  moreover have "PAD \<notin> set (map (\<lambda>ch. [ch]) (sorted_list_of_set (vocab_chars nfc words)))"
    using PAD_not_char by auto
  moreover have "UNK \<notin> set (map (\<lambda>ch. [ch]) (sorted_list_of_set (vocab_chars nfc words)))"
    using UNK_not_char by auto
  ultimately show ?thesis
    using PAD_neq_UNK by (simp add: idx2char_def)
qed

lemma vocab_PAD: "build_char_vocab nfc words PAD = Some 0"
  using fold_enumerate_nth [OF distinct_idx2char, of 0 nfc words 0 Map.empty]
  by (simp add: build_char_vocab_def idx2char_def)

lemma vocab_UNK: "build_char_vocab nfc words UNK = Some 1"
  using fold_enumerate_nth [OF distinct_idx2char, of 1 nfc words 0 Map.empty]
  by (simp add: build_char_vocab_def idx2char_def)

lemma vocab_char:
  assumes "i < length (sorted_list_of_set (vocab_chars nfc words))"
  shows "build_char_vocab nfc words [sorted_list_of_set (vocab_chars nfc words) ! i] = Some (i + 2)"
  using fold_enumerate_nth [OF distinct_idx2char, of "i + 2" nfc words 0 Map.empty] assms
  by (simp add: build_char_vocab_def idx2char_def)

lemma dom_vocab:
  "dom (build_char_vocab nfc words) = {PAD, UNK} \<union> (\<lambda>ch. [ch]) ` vocab_chars nfc words"
  by (auto simp: build_char_vocab_def dom_fold_enumerate idx2char_def vocab_chars_def)

lemma vocab_chars_iff:
  "ch \<in> vocab_chars nfc words \<longleftrightarrow> \<not> py_isspace ch \<and> (\<exists>w\<in>set words. ch \<in> set (normalize_text nfc w))"
  by (auto simp: vocab_chars_def)

lemma vocab_chars_cong: "set words = set words' \<Longrightarrow> vocab_chars nfc words = vocab_chars nfc words'"
  by (auto simp: vocab_chars_iff)

text \<open>
  Claim C5. The vocabulary maps PAD to 0 and UNK to 1, and the i-th element of the sorted
  list of characters to i + 2; that list is sorted, has no duplicates and holds exactly
  the non-whitespace characters of the normalized words; the dictionary has no other
  key. The result is a function of the set of words: two word lists with the same
  elements, in any order and multiplicity, give the same dictionary.
\<close>

theorem build_char_vocab_ids:
  "build_char_vocab nfc words PAD = Some 0
   \<and> build_char_vocab nfc words UNK = Some 1
   \<and> (\<forall>i < length (sorted_list_of_set (vocab_chars nfc words)).
        build_char_vocab nfc words [sorted_list_of_set (vocab_chars nfc words) ! i] = Some (i + 2))
   \<and> sorted (sorted_list_of_set (vocab_chars nfc words))
   \<and> distinct (sorted_list_of_set (vocab_chars nfc words))
   \<and> set (sorted_list_of_set (vocab_chars nfc words))
        = {ch. \<not> py_isspace ch \<and> (\<exists>w\<in>set words. ch \<in> set (normalize_text nfc w))}
   \<and> dom (build_char_vocab nfc words)
        = {PAD, UNK} \<union> (\<lambda>ch. [ch]) ` set (sorted_list_of_set (vocab_chars nfc words))
   \<and> (set words = set words' \<longrightarrow> build_char_vocab nfc words' = build_char_vocab nfc words)"
proof -
  have fin: "finite (vocab_chars nfc words)"
    by (simp add: vocab_chars_def)
  have "set words = set words' \<longrightarrow> build_char_vocab nfc words' = build_char_vocab nfc words"
    by (auto simp: build_char_vocab_def idx2char_def dest: vocab_chars_cong [of words words' nfc])
  moreover have "set (sorted_list_of_set (vocab_chars nfc words))
        = {ch. \<not> py_isspace ch \<and> (\<exists>w\<in>set words. ch \<in> set (normalize_text nfc w))}"
    using fin by (auto simp: vocab_chars_iff)
  moreover have "\<forall>i < length (sorted_list_of_set (vocab_chars nfc words)).
        build_char_vocab nfc words [sorted_list_of_set (vocab_chars nfc words) ! i] = Some (i + 2)"
    using vocab_char by blast
  moreover have "dom (build_char_vocab nfc words)
        = {PAD, UNK} \<union> (\<lambda>ch. [ch]) ` set (sorted_list_of_set (vocab_chars nfc words))"
    using fin by (simp add: dom_vocab)
  ultimately show ?thesis
    by (simp only: vocab_PAD vocab_UNK sorted_sorted_list_of_set distinct_sorted_list_of_set simp_thms)
qed

lemma sorted_vocab_chars_code:
  "sorted_list_of_set (vocab_chars nfc words)
     = sort (remdups (filter (\<lambda>ch. \<not> py_isspace ch) (concat (map (normalize_text nfc) words))))"
  by (simp add: vocab_chars_def sorted_list_of_set_sort_remdups del: set_filter set_concat)

theorem build_char_vocab_ids_witness:
  "build_char_vocab (\<lambda>s. s) [[98, 97, 32], [99, 97]] (ascii ''<PAD>'') = Some 0
   \<and> build_char_vocab (\<lambda>s. s) [[98, 97, 32], [99, 97]] (ascii ''<UNK>'') = Some 1
   \<and> build_char_vocab (\<lambda>s. s) [[98, 97, 32], [99, 97]] [97] = Some 2
   \<and> build_char_vocab (\<lambda>s. s) [[98, 97, 32], [99, 97]] [98] = Some 3
   \<and> build_char_vocab (\<lambda>s. s) [[98, 97, 32], [99, 97]] [99] = Some 4
   \<and> build_char_vocab (\<lambda>s. s) [[99, 97], [98, 97, 32], [99, 97]]
       = build_char_vocab (\<lambda>s. s) [[98, 97, 32], [99, 97]]"
  using build_char_vocab_ids [of "\<lambda>s. s" "[[98, 97, 32], [99, 97]]" "[[99, 97], [98, 97, 32], [99, 97]]"]
  by (simp add: sorted_vocab_chars_code normalize_text_def py_isspace_def PAD_def UNK_def
      All_less_Suc numeral_3_eq_3 insert_commute)

lemma encode_chars_map:
  "vocab UNK = Some unk \<Longrightarrow>
   encode_chars vocab w = Inr (map (\<lambda>ch. case vocab [ch] of None \<Rightarrow> unk | Some i \<Rightarrow> i) w)"
  by (induction w) simp_all

lemma vocab_char_ge2:
  assumes "build_char_vocab nfc words [ch] = Some k"
  shows "2 \<le> k"
proof -
  have "[ch] \<in> dom (build_char_vocab nfc words)"
    using assms by blast
  then have "ch \<in> vocab_chars nfc words"
    using PAD_not_char [of ch] UNK_not_char [of ch] by (auto simp: dom_vocab)
  moreover have "finite (vocab_chars nfc words)"
    by (simp add: vocab_chars_def)
  ultimately have "ch \<in> set (sorted_list_of_set (vocab_chars nfc words))"
    by simp
  then obtain i where "i < length (sorted_list_of_set (vocab_chars nfc words))"
    and "sorted_list_of_set (vocab_chars nfc words) ! i = ch"
    by (auto simp: in_set_conv_nth)
  with vocab_char [of i nfc words] assms show ?thesis by simp
qed

lemma encode_word_built:
  "encode_word nfc word (build_char_vocab nfc words)
     = Inr (map (\<lambda>ch. case build_char_vocab nfc words [ch] of None \<Rightarrow> 1 | Some i \<Rightarrow> i)
              (take MAX_WORD_LEN (normalize_text nfc word))
            @ replicate (MAX_WORD_LEN - true_char_len nfc word) 0)"
  using encode_chars_map [of "build_char_vocab nfc words" 1, OF vocab_UNK]
  by (simp add: encode_word_def vocab_PAD true_char_len_def min_def)

text \<open>
  Claim C4. For every word and every vocabulary built by \<open>build_char_vocab\<close>,
  \<open>encode_word\<close> returns a list of exactly \<open>MAX_WORD_LEN\<close> ids; PAD has id 0; every
  position below \<open>true_char_len\<close> of the word holds the id of the character there, or 1
  (UNK) when the vocabulary lacks it, and that id is not 0; every position from
  \<open>true_char_len\<close> on holds 0. The true length is the value of \<open>true_char_len\<close>, the
  minimum of the normalized length and \<open>MAX_WORD_LEN\<close>.
\<close>

theorem encode_word_fixed_width:
  "\<exists>ids. encode_word nfc word (build_char_vocab nfc words) = Inr ids
     \<and> length ids = MAX_WORD_LEN
     \<and> build_char_vocab nfc words PAD = Some 0
     \<and> (\<forall>i < MAX_WORD_LEN.
          (i < true_char_len nfc word \<longrightarrow>
             ids ! i \<noteq> 0 \<and>
             ids ! i = (case build_char_vocab nfc words [normalize_text nfc word ! i] of
                          None \<Rightarrow> 1 | Some k \<Rightarrow> k))
        \<and> (true_char_len nfc word \<le> i \<longrightarrow> ids ! i = 0))"
proof -
  let ?v = "build_char_vocab nfc words"
  let ?w = "normalize_text nfc word"
  let ?f = "\<lambda>ch. case ?v [ch] of None \<Rightarrow> 1 | Some i \<Rightarrow> i"
  let ?ids = "map ?f (take MAX_WORD_LEN ?w) @ replicate (MAX_WORD_LEN - true_char_len nfc word) 0"
  have len: "length (map ?f (take MAX_WORD_LEN ?w)) = true_char_len nfc word"
    by (simp add: true_char_len_def)
  have nz: "?f ch \<noteq> 0" for ch
    using vocab_char_ge2 [of nfc words ch] by (cases "?v [ch]") auto
  have low: "?ids ! i = ?f (?w ! i) \<and> ?ids ! i \<noteq> 0" if "i < true_char_len nfc word" for i
  proof -
    have "?ids ! i = map ?f (take MAX_WORD_LEN ?w) ! i"
      using that len by (simp add: nth_append)
    also have "\<dots> = ?f (?w ! i)"
      using that by (simp add: true_char_len_def)
    finally show ?thesis using nz by simp
  qed
  have high: "?ids ! i = 0" if "true_char_len nfc word \<le> i" "i < MAX_WORD_LEN" for i
  proof -
    have "\<not> i < length (map ?f (take MAX_WORD_LEN ?w))"
      using that len by linarith
    then have "?ids ! i = replicate (MAX_WORD_LEN - true_char_len nfc word) (0::nat)
                 ! (i - length (map ?f (take MAX_WORD_LEN ?w)))"
      by (simp only: nth_append if_False)
    also have "\<dots> = 0"
      using that len by simp
    finally show ?thesis .
  qed
  have "length ?ids = MAX_WORD_LEN"
    by (simp add: true_char_len_def)
  with low high show ?thesis
    by (simp only: encode_word_built vocab_PAD) blast
qed

theorem encode_word_fixed_width_witness:
  "\<exists>ids. encode_word (\<lambda>s. s) [99, 120] (build_char_vocab (\<lambda>s. s) [[98, 97, 32], [99, 97]]) = Inr ids
     \<and> length ids = 24 \<and> ids ! 0 \<noteq> 0 \<and> ids ! 1 \<noteq> 0 \<and> ids ! 2 = 0 \<and> ids ! 23 = 0"
proof -
  have t: "true_char_len (\<lambda>s. s) [99, 120] = 2"
    by (simp add: true_char_len_def normalize_text_def MAX_WORD_LEN_def)
  obtain ids where
    enc: "encode_word (\<lambda>s. s) [99, 120] (build_char_vocab (\<lambda>s. s) [[98, 97, 32], [99, 97]]) = Inr ids"
    and len: "length ids = MAX_WORD_LEN"
    and pos: "\<forall>i < MAX_WORD_LEN.
          (i < true_char_len (\<lambda>s. s) [99, 120] \<longrightarrow>
             ids ! i \<noteq> 0 \<and>
             ids ! i = (case build_char_vocab (\<lambda>s. s) [[98, 97, 32], [99, 97]]
                              [normalize_text (\<lambda>s. s) [99, 120] ! i] of
                          None \<Rightarrow> 1 | Some k \<Rightarrow> k))
        \<and> (true_char_len (\<lambda>s. s) [99, 120] \<le> i \<longrightarrow> ids ! i = 0)"
    using encode_word_fixed_width [of "\<lambda>s. s" "[99, 120]" "[[98, 97, 32], [99, 97]]"] by blast
  from pos have nz: "\<forall>i < MAX_WORD_LEN. i < true_char_len (\<lambda>s. s) [99, 120] \<longrightarrow> ids ! i \<noteq> 0"
    and z: "\<forall>i < MAX_WORD_LEN. true_char_len (\<lambda>s. s) [99, 120] \<le> i \<longrightarrow> ids ! i = 0"
    by blast+
  from nz t have "ids ! 0 \<noteq> 0" "ids ! 1 \<noteq> 0"
    by (simp_all add: MAX_WORD_LEN_def)
  moreover from z t have "ids ! 2 = 0" "ids ! 23 = 0"
    by (simp_all add: MAX_WORD_LEN_def)
  moreover note enc len
  ultimately show ?thesis
    by (simp add: MAX_WORD_LEN_def)
qed

section \<open>Properties of the endpoint and the model\<close>

lemma finditer_nonspace_Some_nonempty: "finditer_nonspace i (Some st) cs \<noteq> []"
  by (induction cs arbitrary: i st) (auto split: prod.splits if_splits)

lemma finditer_nonspace_empty_iff:
  "finditer_nonspace i None cs = [] \<longleftrightarrow> (\<forall>c \<in> set cs. py_isspace c)"
  by (induction cs arbitrary: i) (auto simp: finditer_nonspace_Some_nonempty)

lemma ws_tokens_empty_iff:
  "fst (ws_tokens_with_spans t) = [] \<longleftrightarrow> (\<forall>c \<in> set t. py_isspace c)"
  by (simp add: ws_tokens_with_spans_def Let_def finditer_nonspace_empty_iff)

text \<open>
  Claim C6, as stated, fails for the empty string: it tokenizes to no token, yet the
  endpoint answers with the client error 400, also when all artifacts are loaded.
\<close>

theorem ner_empty_text_rejected:
  "fst (ws_tokens_with_spans (normalize_text (\<lambda>s. s) [])) = []
   \<and> ner (\<lambda>s. s) (\<lambda>zs. zs)
        \<lparr>model = Some \<lparr>emb = [0, 1], rnn_cell = (\<lambda>h e. h + e), rnn_h0 = (0::nat),
                        ctx_rnn = (\<lambda>hs. hs), bio_head = (\<lambda>h. [1])\<rparr>,
          id2label = Some Map.empty,
          char2idx = Some (build_char_vocab (\<lambda>s. s) [])\<rparr>
        []
     = Inl (HTTPException 400)"
  by (simp add: ner_def ws_tokens_with_spans_def normalize_text_def)

text \<open>
  Claim C6, amended. The empty text is rejected with status 400. For every non-empty
  text whose normalized form has no token, which is the case exactly when all its
  characters are whitespace, and with the model, the label map and the vocabulary loaded,
  the endpoint returns the normalized text with an empty entity list. This holds for
  every model and every softmax, so the result does not come from the model. When an
  artifact is missing, a non-empty text is answered with status 503.
\<close>

theorem ner_no_tokens:
  "ner nfc softmax g [] = Inl (HTTPException 400)
   \<and> (inp_text \<noteq> [] \<and> model g = Some m \<and> id2label g = Some i2l \<and> char2idx g = Some c2i
        \<and> fst (ws_tokens_with_spans (normalize_text nfc inp_text)) = []
      \<longrightarrow> ner nfc softmax g inp_text = Inr \<lparr>o_text = normalize_text nfc inp_text, o_entities = []\<rparr>)
   \<and> (fst (ws_tokens_with_spans (normalize_text nfc inp_text)) = []
        \<longleftrightarrow> (\<forall>c \<in> set (normalize_text nfc inp_text). py_isspace c))
   \<and> (inp_text \<noteq> [] \<and> (model g = None \<or> id2label g = None \<or> char2idx g = None)
      \<longrightarrow> ner nfc softmax g inp_text = Inl (HTTPException 503))"
proof -
  have "ner nfc softmax g inp_text = Inl (HTTPException 503)"
    if "inp_text \<noteq> []" "model g = None \<or> id2label g = None \<or> char2idx g = None"
    using that by (auto simp: ner_def split: option.splits)
  moreover
  have "ner nfc softmax g inp_text = Inr \<lparr>o_text = normalize_text nfc inp_text, o_entities = []\<rparr>"
    if "inp_text \<noteq> []" "model g = Some m" "id2label g = Some i2l" "char2idx g = Some c2i"
      "fst (ws_tokens_with_spans (normalize_text nfc inp_text)) = []"
    using that by (cases "ws_tokens_with_spans (normalize_text nfc inp_text)") (simp add: ner_def)
  ultimately show ?thesis
    by (simp add: ner_def ws_tokens_empty_iff)
qed

theorem ner_no_tokens_witness:
  "ner (\<lambda>s. s) (\<lambda>zs. zs)
        \<lparr>model = Some \<lparr>emb = [0, 1], rnn_cell = (\<lambda>h e. h + e), rnn_h0 = (0::nat),
                        ctx_rnn = (\<lambda>hs. hs), bio_head = (\<lambda>h. [1])\<rparr>,
          id2label = Some Map.empty,
          char2idx = Some (build_char_vocab (\<lambda>s. s) [])\<rparr>
        [32, 32, 32]
     = Inr \<lparr>o_text = [32, 32, 32], o_entities = []\<rparr>"
  using ner_no_tokens [of "\<lambda>s. s" "\<lambda>zs. zs"
        "\<lparr>model = Some \<lparr>emb = [0, 1], rnn_cell = (\<lambda>h e. h + e), rnn_h0 = (0::nat),
                        ctx_rnn = (\<lambda>hs. hs), bio_head = (\<lambda>h. [1])\<rparr>,
          id2label = Some Map.empty,
          char2idx = Some (build_char_vocab (\<lambda>s. s) [])\<rparr>"
        "[32, 32, 32]"
        "\<lparr>emb = [0, 1], rnn_cell = (\<lambda>h e. h + e), rnn_h0 = (0::nat),
                        ctx_rnn = (\<lambda>hs. hs), bio_head = (\<lambda>h. [1])\<rparr>"
        Map.empty "build_char_vocab (\<lambda>s. s) []"]
  by (simp add: normalize_text_def py_isspace_def)

section \<open>Lengths handed to the character encoder\<close>

lemma collect_InrD:
  "collect rs = Inr vs \<Longrightarrow> rs = map Inr vs"
  by (induction rs arbitrary: vs) (auto split: sum.splits)

lemma vocab_char_lt:
  assumes "build_char_vocab nfc words [ch] = Some k"
  shows "k < length (idx2char nfc words)"
proof -
  have "[ch] \<in> dom (build_char_vocab nfc words)"
    using assms by blast
  then have "ch \<in> vocab_chars nfc words"
    using PAD_not_char [of ch] UNK_not_char [of ch] by (auto simp: dom_vocab)
  moreover have "finite (vocab_chars nfc words)"
    by (simp add: vocab_chars_def)
  ultimately have "ch \<in> set (sorted_list_of_set (vocab_chars nfc words))"
    by simp
  then obtain i where "i < length (sorted_list_of_set (vocab_chars nfc words))"
    and "sorted_list_of_set (vocab_chars nfc words) ! i = ch"
    by (auto simp: in_set_conv_nth)
  with vocab_char [of i nfc words] assms show ?thesis
    by (simp add: idx2char_def)
qed

lemma card_dom_vocab: "card (dom (build_char_vocab nfc words)) = length (idx2char nfc words)"
proof -
  have "dom (build_char_vocab nfc words) = set (idx2char nfc words)"
    by (simp add: build_char_vocab_def dom_fold_enumerate)
  then show ?thesis
    by (simp add: distinct_card [OF distinct_idx2char])
qed

lemma encode_word_built_ids:
  assumes "encode_word nfc w (build_char_vocab nfc words) = Inr ids"
  shows "length ids = MAX_WORD_LEN"
    and "\<forall>i \<in> set ids. i < card (dom (build_char_vocab nfc words))"
proof -
  let ?v = "build_char_vocab nfc words"
  let ?f = "\<lambda>ch. case ?v [ch] of None \<Rightarrow> 1 | Some i \<Rightarrow> i"
  from assms have ids: "ids = map ?f (take MAX_WORD_LEN (normalize_text nfc w))
      @ replicate (MAX_WORD_LEN - true_char_len nfc w) 0"
    by (simp add: encode_word_built)
  then show "length ids = MAX_WORD_LEN"
    by (simp add: true_char_len_def)
  have two: "2 \<le> length (idx2char nfc words)"
    by (simp add: idx2char_def)
  have "?f ch < length (idx2char nfc words)" for ch
    using vocab_char_lt [of nfc words ch] two by (cases "?v [ch]") auto
  with two ids show "\<forall>i \<in> set ids. i < card (dom ?v)"
    by (auto simp: card_dom_vocab)
qed

lemma encoded_rows:
  assumes "collect (map (\<lambda>w. encode_word nfc w (build_char_vocab nfc words)) tokens) = Inr x"
  shows "length x = length tokens"
    and "\<forall>row \<in> set x. length row = MAX_WORD_LEN"
    and "\<forall>row \<in> set x. \<forall>i \<in> set row. i < card (dom (build_char_vocab nfc words))"
proof -
  from assms have eq: "map (\<lambda>w. encode_word nfc w (build_char_vocab nfc words)) tokens = map Inr x"
    by (rule collect_InrD)
  then show len: "length x = length tokens"
    by (metis length_map)
  have enc: "\<exists>w. encode_word nfc w (build_char_vocab nfc words) = Inr row" if "row \<in> set x" for row
  proof -
    from that obtain i where i: "i < length x" and row: "x ! i = row"
      by (auto simp: in_set_conv_nth)
    from eq i len have "encode_word nfc (tokens ! i) (build_char_vocab nfc words) = Inr (x ! i)"
      by (metis nth_map)
    with row show ?thesis by blast
  qed
  show "\<forall>row \<in> set x. length row = MAX_WORD_LEN"
    using enc encode_word_built_ids(1) by blast
  show "\<forall>row \<in> set x. \<forall>i \<in> set row. i < card (dom (build_char_vocab nfc words))"
    using enc encode_word_built_ids(2) by blast
qed

lemma embedding_ok:
  "\<forall>row \<in> set x. \<forall>i \<in> set row. i < length table \<Longrightarrow>
   embedding table x = Inr (map (map (\<lambda>i. table ! i)) x)"
  by (simp add: embedding_def)

lemma pack_padded_sequence_ok:
  assumes "rows \<noteq> []" and "length lengths = length rows"
    and "\<forall>l \<in> set lengths. 1 \<le> l \<and> l \<le> int n"
    and "\<forall>row \<in> set rows. length row = n"
  shows "pack_padded_sequence rows lengths
           = Inr (map (\<lambda>(row, l). take (nat l) row) (zip rows lengths))"
proof -
  have "\<not> (\<exists>l \<in> set lengths. l \<le> 0)"
    using assms(3) by fastforce
  moreover have "\<not> (\<exists>(row, l) \<in> set (zip rows lengths). int (length row) < l)"
  proof
    assume "\<exists>(row, l) \<in> set (zip rows lengths). int (length row) < l"
    then obtain row l where in_zip: "(row, l) \<in> set (zip rows lengths)" and lt: "int (length row) < l"
      by blast
    from in_zip have "row \<in> set rows" and "l \<in> set lengths"
      by (auto dest: set_zip_leftD set_zip_rightD)
    with assms(3,4) have "l \<le> int (length row)"
      by auto
    with lt show False by simp
  qed
  moreover have "concat (take (length lengths) rows) \<noteq> []"
  proof -
    from assms(1,2) obtain l where l: "l \<in> set lengths"
      by (cases lengths) auto
    with assms(3) have "0 < n" by fastforce
    moreover from assms(1) obtain row where "row \<in> set rows"
      by (cases rows) auto
    ultimately show ?thesis
      using assms(2,4) by auto
  qed
  ultimately show ?thesis
    using assms(2) by (simp add: pack_padded_sequence_def)
qed


text \<open>
  Claim C3, as stated, fails: the true length has no floor. The word made of one
  zero-width space has a normalized form of length 0, and its true length is 0, not 1.
\<close>

theorem true_char_len_zero:
  "length (normalize_text (\<lambda>s. s) [8203]) = 0 \<and> true_char_len (\<lambda>s. s) [8203] = 0"
  by (simp add: true_char_len_def normalize_text_def)

text \<open>
  Claim C3, amended. The true length of a word is the minimum of its normalized length
  and \<open>MAX_WORD_LEN\<close>, without a floor: it is 0 for a word whose normalized length is 0.
  The floor is applied in \<open>NerModel.forward\<close>: for a non-empty batch with one length per
  word it hands the lengths clamped to at least 1 to the character encoder, so every
  length the encoder receives is at least 1, and 1 for a word of true length 0. For the
  encoded words of a non-empty token list and an embedding table with a row for every
  id of the vocabulary, the encoder accepts these lengths and the forward pass returns
  logits.
\<close>

theorem char_encoder_length_floor:
  "true_char_len nfc w = min (length (normalize_text nfc w)) MAX_WORD_LEN
   \<and> (length (normalize_text nfc w) = 0 \<longrightarrow>
        true_char_len nfc w = 0 \<and> clamp_min 1 [int (true_char_len nfc w)] = [1])
   \<and> (\<forall>l \<in> set (clamp_min 1 lc). 1 \<le> l)
   \<and> (\<forall>i < length tokens.
        clamp_min 1 (map (\<lambda>w. int (true_char_len nfc w)) tokens) ! i
          = max 1 (int (true_char_len nfc (tokens ! i))))
   \<and> (x \<noteq> [] \<and> length lc = length x \<longrightarrow>
        NerModel_forward m x lc
          = (case CharEncoder_forward m x (clamp_min 1 lc) of
               Inl err \<Rightarrow> Inl err
             | Inr h \<Rightarrow> Inr (map (bio_head m) (ctx_rnn m h))))
   \<and> (tokens \<noteq> []
        \<and> collect (map (\<lambda>w. encode_word nfc w (build_char_vocab nfc words)) tokens) = Inr x
        \<and> card (dom (build_char_vocab nfc words)) \<le> length (emb m) \<longrightarrow>
        (\<exists>logits. NerModel_forward m x (map (\<lambda>w. int (true_char_len nfc w)) tokens) = Inr logits))"
proof -
  let ?lc = "map (\<lambda>w. int (true_char_len nfc w)) tokens"
  have range: "\<forall>l \<in> set (clamp_min 1 ?lc). 1 \<le> l \<and> l \<le> int MAX_WORD_LEN"
    by (auto simp: clamp_min_def true_char_len_def MAX_WORD_LEN_def)
  have run: "\<exists>logits. NerModel_forward m x ?lc = Inr logits"
    if ne: "tokens \<noteq> []"
      and enc: "collect (map (\<lambda>w. encode_word nfc w (build_char_vocab nfc words)) tokens) = Inr x"
      and table: "card (dom (build_char_vocab nfc words)) \<le> length (emb m)"
  proof -
    let ?rows = "map (map (\<lambda>i. emb m ! i)) x"
    have len: "length x = length tokens"
      by (rule encoded_rows(1) [OF enc])
    with ne have x: "x \<noteq> []"
      by auto
    have "\<forall>row \<in> set x. \<forall>i \<in> set row. i < length (emb m)"
      using encoded_rows(3) [OF enc] table by fastforce
    then have embedded: "embedding (emb m) x = Inr ?rows"
      by (rule embedding_ok)
    have "?rows \<noteq> []" "length (clamp_min 1 ?lc) = length ?rows"
      using x len by (simp_all add: clamp_min_def)
    moreover have "\<forall>row \<in> set ?rows. length row = MAX_WORD_LEN"
      using encoded_rows(2) [OF enc] by simp
    ultimately have "\<exists>packed. pack_padded_sequence ?rows (clamp_min 1 ?lc) = Inr packed"
      using pack_padded_sequence_ok [OF _ _ range] by blast
    with embedded x len show ?thesis
      by (auto simp: NerModel_forward_def CharEncoder_forward_def)
  qed
  have "true_char_len nfc w = min (length (normalize_text nfc w)) MAX_WORD_LEN"
    by (simp add: true_char_len_def)
  moreover have "length (normalize_text nfc w) = 0 \<longrightarrow>
        true_char_len nfc w = 0 \<and> clamp_min 1 [int (true_char_len nfc w)] = [1]"
    by (simp add: clamp_min_def true_char_len_def)
  moreover have "\<forall>l \<in> set (clamp_min 1 lc). 1 \<le> l"
    by (auto simp: clamp_min_def)
  moreover have "\<forall>i < length tokens. clamp_min 1 ?lc ! i = max 1 (int (true_char_len nfc (tokens ! i)))"
    by (simp add: clamp_min_def)
  moreover have "x \<noteq> [] \<and> length lc = length x \<longrightarrow>
        NerModel_forward m x lc
          = (case CharEncoder_forward m x (clamp_min 1 lc) of
               Inl err \<Rightarrow> Inl err
             | Inr h \<Rightarrow> Inr (map (bio_head m) (ctx_rnn m h)))"
    by (simp add: NerModel_forward_def)
  ultimately show ?thesis
    using run by blast
qed

theorem char_encoder_length_floor_witness:
  "true_char_len (\<lambda>s. s) [8203] = 0
   \<and> clamp_min 1 (map (\<lambda>w. int (true_char_len (\<lambda>s. s) w)) [[8203], [97, 98]]) = [1, 2]
   \<and> (\<exists>logits. NerModel_forward
          \<lparr>emb = [0, 1, 2, 3], rnn_cell = (\<lambda>h e. h + e), rnn_h0 = (0::nat),
            ctx_rnn = (\<lambda>hs. hs), bio_head = (\<lambda>h. [1])\<rparr>
          [replicate 24 0, [2, 3] @ replicate 22 0]
          (map (\<lambda>w. int (true_char_len (\<lambda>s. s) w)) [[8203], [97, 98]]) = Inr logits)"
proof -
  let ?m = "\<lparr>emb = [0, 1, 2, 3], rnn_cell = (\<lambda>h e. h + e), rnn_h0 = (0::nat),
            ctx_rnn = (\<lambda>hs. hs), bio_head = (\<lambda>h. [1])\<rparr>"
  have enc: "collect (map (\<lambda>w. encode_word (\<lambda>s. s) w (build_char_vocab (\<lambda>s. s) [[97, 98]])) [[8203], [97, 98]])
      = Inr [replicate 24 0, [2, 3] @ replicate 22 0]"
    using vocab_char [of 0 "\<lambda>s. s" "[[97, 98]]"] vocab_char [of 1 "\<lambda>s. s" "[[97, 98]]"]
    by (simp add: encode_word_built sorted_vocab_chars_code normalize_text_def py_isspace_def
        true_char_len_def MAX_WORD_LEN_def)
  have table: "card (dom (build_char_vocab (\<lambda>s. s) [[97, 98]])) \<le> length (emb ?m)"
    by (simp add: card_dom_vocab idx2char_def sorted_vocab_chars_code normalize_text_def
        py_isspace_def)
  have clamped: "clamp_min 1 (map (\<lambda>w. int (true_char_len (\<lambda>s. s) w)) [[8203], [97, 98]]) = [1, 2]"
    by (simp add: clamp_min_def true_char_len_def normalize_text_def MAX_WORD_LEN_def)
  have ne: "[[8203], [97, 98]] \<noteq> ([] :: pystr list)"
    by simp
  have empty: "length (normalize_text (\<lambda>s. s) [8203]) = 0"
    by (simp add: normalize_text_def)
  note floor = char_encoder_length_floor [of "\<lambda>s. s" "[8203]" "[]" "[[8203], [97, 98]]"
        "[replicate 24 0, [2, 3] @ replicate 22 0]" ?m "[[97, 98]]"]
  from floor empty have "true_char_len (\<lambda>s. s) [8203] = 0"
    by blast
  moreover from floor ne enc table
  have "\<exists>logits. NerModel_forward ?m [replicate 24 0, [2, 3] @ replicate 22 0]
          (map (\<lambda>w. int (true_char_len (\<lambda>s. s) w)) [[8203], [97, 98]]) = Inr logits"
    by blast
  ultimately show ?thesis
    using clamped by blast
qed

section \<open>Classification head: argmax and score\<close>

lemma argmax_scan_spec:
  fixes v :: "'a::linorder"
  assumes "length pre = i" "best < i" "pre ! best = v"
    and "\<forall>j < i. pre ! j \<le> v" and "\<forall>j < best. pre ! j < v"
  shows "argmax_scan best v i ps < length (pre @ ps)
     \<and> (pre @ ps) ! argmax_scan best v i ps = fold max ps v
     \<and> (\<forall>j < length (pre @ ps). (pre @ ps) ! j \<le> fold max ps v)
     \<and> (\<forall>j < argmax_scan best v i ps. (pre @ ps) ! j < fold max ps v)"
  using assms
proof (induction ps arbitrary: best v i pre)
  case Nil
  then show ?case by simp
next
  case (Cons p ps)
  show ?case
  proof (cases "v < p")
    case True
    have "length (pre @ [p]) = Suc i" "i < Suc i" "(pre @ [p]) ! i = p"
      using Cons.prems(1) [symmetric] by simp_all
    moreover have "\<forall>j < Suc i. (pre @ [p]) ! j \<le> p"
      using Cons.prems(1,4) True by (auto simp: nth_append less_Suc_eq intro: less_imp_le order_le_less_trans)
    moreover have "\<forall>j < i. (pre @ [p]) ! j < p"
      using Cons.prems(1,4) True by (auto simp: nth_append intro: order_le_less_trans)
    moreover have "max p v = p"
      using True by (simp add: max.absorb1)
    ultimately show ?thesis
      using Cons.IH [of "pre @ [p]" "Suc i" i p] True by simp
  next
    case False
    have "length (pre @ [p]) = Suc i" "best < Suc i" "(pre @ [p]) ! best = v"
      using Cons.prems(1,2,3) by (simp_all add: nth_append)
    moreover have "\<forall>j < Suc i. (pre @ [p]) ! j \<le> v"
      using Cons.prems(1,4) False by (auto simp: nth_append less_Suc_eq)
    moreover have "\<forall>j < best. (pre @ [p]) ! j < v"
      using Cons.prems(1,2,5) by (auto simp: nth_append)
    moreover have "max p v = v"
      using False by (simp add: max.absorb2)
    ultimately show ?thesis
      using Cons.IH [of "pre @ [p]" "Suc i" best v] False by simp
  qed
qed

text \<open>
  Claim C8. For every non-empty probability vector, the predicted index is an index of
  the vector, the predicted score is the entry at that index and no entry is larger;
  every entry before the predicted index is strictly smaller, so among equal maxima the
  lowest index is taken. The label is the one the label map gives for that index.
  Both values are functions of the vector alone.
\<close>

theorem argmax_lowest_index:
  "probs \<noteq> [] \<longrightarrow>
     (\<exists>i s. torch_argmax probs = Inr i \<and> torch_max probs = Inr s
        \<and> i < length probs \<and> probs ! i = s
        \<and> (\<forall>j < length probs. probs ! j \<le> s)
        \<and> (\<forall>j < i. probs ! j < s)
        \<and> pred_labels id2l [i] = [case id2l (py_str i) of None \<Rightarrow> ascii ''O'' | Some l \<Rightarrow> l])"
proof
  assume "probs \<noteq> []"
  then obtain p ps where probs: "probs = p # ps"
    by (cases probs) auto
  have "argmax_scan 0 p 1 ps < length ([p] @ ps)
     \<and> ([p] @ ps) ! argmax_scan 0 p 1 ps = fold max ps p
     \<and> (\<forall>j < length ([p] @ ps). ([p] @ ps) ! j \<le> fold max ps p)
     \<and> (\<forall>j < argmax_scan 0 p 1 ps. ([p] @ ps) ! j < fold max ps p)"
    by (rule argmax_scan_spec) simp_all
  with probs show "\<exists>i s. torch_argmax probs = Inr i \<and> torch_max probs = Inr s
        \<and> i < length probs \<and> probs ! i = s
        \<and> (\<forall>j < length probs. probs ! j \<le> s)
        \<and> (\<forall>j < i. probs ! j < s)
        \<and> pred_labels id2l [i] = [case id2l (py_str i) of None \<Rightarrow> ascii ''O'' | Some l \<Rightarrow> l]"
    by (simp add: pred_labels_def)
qed

theorem argmax_lowest_index_witness:
  "torch_argmax [1 / 5, 2 / 5, 2 / 5 :: real] = Inr 1
   \<and> torch_max [1 / 5, 2 / 5, 2 / 5 :: real] = Inr (2 / 5)
   \<and> pred_labels [[49] \<mapsto> ascii ''B-PER''] [1] = [ascii ''B-PER'']"
  using argmax_lowest_index [of "[1 / 5, 2 / 5, 2 / 5 :: real]" "[[49] \<mapsto> ascii ''B-PER'']"]
  by (simp add: pred_labels_def)

section \<open>Character encoder: padding\<close>

lemma too_long_iff:
  "(\<exists>(row, l) \<in> set (zip rows lengths). int (length row) < l)
     \<longleftrightarrow> (\<exists>i. i < length rows \<and> i < length lengths \<and> int (length (rows ! i)) < lengths ! i)"
  unfolding set_zip by fastforce

lemma no_element_iff:
  "concat (take k rows) = [] \<longleftrightarrow> (\<forall>i. i < length rows \<and> i < k \<longrightarrow> length (rows ! i) = 0)"
proof -
  have "concat (take k rows) = [] \<longleftrightarrow> (\<forall>i < length (take k rows). take k rows ! i = [])"
    by (simp add: all_set_conv_all_nth)
  then show ?thesis
    by auto
qed

lemma packed_rows_eq:
  assumes "length rows' = length rows"
    and "\<forall>i. i < length rows \<and> i < length lengths \<longrightarrow>
           take (nat (lengths ! i)) (rows' ! i) = take (nat (lengths ! i)) (rows ! i)"
  shows "map (\<lambda>(row, l). take (nat l) row) (zip rows' lengths)
      = map (\<lambda>(row, l). take (nat l) row) (zip rows lengths)"
proof (rule nth_equalityI)
  show "length (map (\<lambda>(row, l). take (nat l) row) (zip rows' lengths))
      = length (map (\<lambda>(row, l). take (nat l) row) (zip rows lengths))"
    using assms(1) by simp
next
  fix i assume "i < length (map (\<lambda>(row, l). take (nat l) row) (zip rows' lengths))"
  then have "i < length rows'" "i < length rows" "i < length lengths"
    using assms(1) by simp_all
  then show "map (\<lambda>(row, l). take (nat l) row) (zip rows' lengths) ! i
      = map (\<lambda>(row, l). take (nat l) row) (zip rows lengths) ! i"
    using assms(2) by simp
qed

lemma pack_padded_sequence_cong:
  assumes "length x' = length x"
    and "\<forall>i < length x. length (x' ! i) = length (x ! i)"
    and "\<forall>i < length x. i < length lengths \<longrightarrow>
           take (nat (lengths ! i)) (x' ! i) = take (nat (lengths ! i)) (x ! i)"
  shows "pack_padded_sequence (map (map f) x') lengths = pack_padded_sequence (map (map f) x) lengths"
proof -
  have widths: "(\<exists>(row, l) \<in> set (zip (map (map f) x') lengths). int (length row) < l)
      \<longleftrightarrow> (\<exists>(row, l) \<in> set (zip (map (map f) x) lengths). int (length row) < l)"
    unfolding too_long_iff using assms(1,2) by (simp cong: conj_cong)
  have none: "concat (take (length lengths) (map (map f) x')) = []
      \<longleftrightarrow> concat (take (length lengths) (map (map f) x)) = []"
    unfolding no_element_iff using assms(1,2) by (simp cong: conj_cong)
  have rows: "map (\<lambda>(row, l). take (nat l) row) (zip (map (map f) x') lengths)
      = map (\<lambda>(row, l). take (nat l) row) (zip (map (map f) x) lengths)"
  proof (rule packed_rows_eq)
    show "length (map (map f) x') = length (map (map f) x)"
      using assms(1) by simp
    show "\<forall>i. i < length (map (map f) x) \<and> i < length lengths \<longrightarrow>
           take (nat (lengths ! i)) (map (map f) x' ! i) = take (nat (lengths ! i)) (map (map f) x ! i)"
      using assms(1,3) by (simp add: take_map cong: conj_cong)
  qed
  show ?thesis
    unfolding pack_padded_sequence_def widths rows none using assms(1) by simp
qed

text \<open>
  Claim C9. Take two non-empty batches of encoded words with the same number of rows and
  the same row widths, all of whose ids are rows of the embedding table, and whose rows
  agree on their first \<open>lengths[i]\<close> ids. Under the same lengths \<open>CharEncoder.forward\<close>
  gives the same result for both. With one length per row, each between 1 and the row
  width, the result for a row is the GRU state after the embeddings of its first
  \<open>lengths[i]\<close> ids; the ids at or beyond that position do not occur in it. The
  embedding table and the GRU cell are arbitrary.
\<close>

theorem char_encoder_ignores_padding:
  "(x \<noteq> [] \<and> length x' = length x
    \<and> (\<forall>i < length x. length (x' ! i) = length (x ! i))
    \<and> (\<forall>row \<in> set x. \<forall>i \<in> set row. i < length (emb m))
    \<and> (\<forall>row \<in> set x'. \<forall>i \<in> set row. i < length (emb m))
    \<and> (\<forall>i < length x. i < length lengths \<longrightarrow>
          take (nat (lengths ! i)) (x' ! i) = take (nat (lengths ! i)) (x ! i))
    \<longrightarrow> CharEncoder_forward m x' lengths = CharEncoder_forward m x lengths)
   \<and> (x \<noteq> [] \<and> length lengths = length x
       \<and> (\<forall>l \<in> set lengths. 1 \<le> l \<and> l \<le> int n)
       \<and> (\<forall>row \<in> set x. length row = n)
       \<and> (\<forall>row \<in> set x. \<forall>i \<in> set row. i < length (emb m))
    \<longrightarrow> CharEncoder_forward m x lengths
          = Inr (map (\<lambda>(row, l).
                   foldl (rnn_cell m) (rnn_h0 m) (map (\<lambda>i. emb m ! i) (take (nat l) row)))
                   (zip x lengths)))"
proof (intro conjI impI)
  assume a: "x \<noteq> [] \<and> length x' = length x
    \<and> (\<forall>i < length x. length (x' ! i) = length (x ! i))
    \<and> (\<forall>row \<in> set x. \<forall>i \<in> set row. i < length (emb m))
    \<and> (\<forall>row \<in> set x'. \<forall>i \<in> set row. i < length (emb m))
    \<and> (\<forall>i < length x. i < length lengths \<longrightarrow>
          take (nat (lengths ! i)) (x' ! i) = take (nat (lengths ! i)) (x ! i))"
  then have "embedding (emb m) x = Inr (map (map (\<lambda>i. emb m ! i)) x)"
    and "embedding (emb m) x' = Inr (map (map (\<lambda>i. emb m ! i)) x')"
    by (simp_all add: embedding_ok)
  with a show "CharEncoder_forward m x' lengths = CharEncoder_forward m x lengths"
    using pack_padded_sequence_cong [of x' x lengths "\<lambda>i. emb m ! i"]
    by (simp add: CharEncoder_forward_def)
next
  assume a: "x \<noteq> [] \<and> length lengths = length x
       \<and> (\<forall>l \<in> set lengths. 1 \<le> l \<and> l \<le> int n)
       \<and> (\<forall>row \<in> set x. length row = n)
       \<and> (\<forall>row \<in> set x. \<forall>i \<in> set row. i < length (emb m))"
  let ?rows = "map (map (\<lambda>i. emb m ! i)) x"
  from a have embedded: "embedding (emb m) x = Inr ?rows"
    by (simp add: embedding_ok)
  from a have "pack_padded_sequence ?rows lengths
      = Inr (map (\<lambda>(row, l). take (nat l) row) (zip ?rows lengths))"
    using pack_padded_sequence_ok [of ?rows lengths n] by simp
  moreover have "map (foldl (rnn_cell m) (rnn_h0 m))
        (map (\<lambda>(row, l). take (nat l) row) (zip ?rows lengths))
      = map (\<lambda>(row, l). foldl (rnn_cell m) (rnn_h0 m) (map (\<lambda>i. emb m ! i) (take (nat l) row)))
          (zip x lengths)"
    by (simp add: zip_map1 take_map split_beta)
  ultimately show "CharEncoder_forward m x lengths
          = Inr (map (\<lambda>(row, l).
                   foldl (rnn_cell m) (rnn_h0 m) (map (\<lambda>i. emb m ! i) (take (nat l) row)))
                   (zip x lengths))"
    using embedded by (simp add: CharEncoder_forward_def rnn_final_def)
qed

theorem char_encoder_ignores_padding_witness:
  "CharEncoder_forward
      \<lparr>emb = [0, 1, 2, 3, 4, 5, 6, 7, 8, 9], rnn_cell = (\<lambda>h e. 2 * h + e + 1), rnn_h0 = (0::nat),
        ctx_rnn = (\<lambda>hs. hs), bio_head = (\<lambda>h. [1])\<rparr>
      [[4, 5, 9, 9]] [2]
    = CharEncoder_forward
      \<lparr>emb = [0, 1, 2, 3, 4, 5, 6, 7, 8, 9], rnn_cell = (\<lambda>h e. 2 * h + e + 1), rnn_h0 = (0::nat),
        ctx_rnn = (\<lambda>hs. hs), bio_head = (\<lambda>h. [1])\<rparr>
      [[4, 5, 0, 0]] [2]
   \<and> CharEncoder_forward
      \<lparr>emb = [0, 1, 2, 3, 4, 5, 6, 7, 8, 9], rnn_cell = (\<lambda>h e. 2 * h + e + 1), rnn_h0 = (0::nat),
        ctx_rnn = (\<lambda>hs. hs), bio_head = (\<lambda>h. [1])\<rparr>
      [[4, 5, 0, 0]] [2]
    = Inr [16]"
  using char_encoder_ignores_padding [of "[[4, 5, 0, 0]]" "[[4, 5, 9, 9]]"
      "\<lparr>emb = [0, 1, 2, 3, 4, 5, 6, 7, 8, 9], rnn_cell = (\<lambda>h e. 2 * h + e + 1), rnn_h0 = (0::nat),
        ctx_rnn = (\<lambda>hs. hs), bio_head = (\<lambda>h. [1])\<rparr>" "[2]" 4]
  by simp

section \<open>Decoder: composition and labels outside the label map\<close>

lemma decode_loop_append:
  "decode_loop st (xs @ ys)
     = (case decode_loop st xs of Inl err \<Rightarrow> Inl err | Inr st' \<Rightarrow> decode_loop st' ys)"
  by (induction xs arbitrary: st) (auto split: sum.splits)

lemma fst_flush_prefix: "fst (flush (pre @ ents, c)) = pre @ fst (flush (ents, c))"
  by (cases c) simp_all

lemma snd_flush: "snd (flush st) = None"
  by (cases st; cases "snd st") auto

lemma decode_step_prefix:
  "decode_step (ents, c) item = Inr (ents', c')
     \<Longrightarrow> decode_step (pre @ ents, c) item = Inr (pre @ ents', c')"
  by (cases item; cases c)
    (auto simp: decode_step_def parse_label_total split: if_splits)

lemma decode_loop_prefix:
  "decode_loop (ents, c) items = Inr (ents', c')
     \<Longrightarrow> decode_loop (pre @ ents, c) items = Inr (pre @ ents', c')"
proof (induction items arbitrary: ents c)
  case Nil
  then show ?case by simp
next
  case (Cons item items)
  obtain ents1 c1 where step: "decode_step (ents, c) item = Inr (ents1, c1)"
    using decode_step_total [of "(ents, c)" item] by auto
  with Cons.prems have "decode_loop (ents1, c1) items = Inr (ents', c')"
    by simp
  then have "decode_loop (pre @ ents1, c1) items = Inr (pre @ ents', c')"
    by (rule Cons.IH)
  with decode_step_prefix [OF step, of pre] show ?case
    by simp
qed

lemma decode_loop_outside:
  assumes "decode_loop ([], None) xs = Inr st1"
    and "decode_loop ([], None) ys = Inr st2"
  shows "decode_loop ([], None) (xs @ (token, sp, ascii ''O'', score) # ys)
           = Inr (fst (flush st1) @ fst st2, snd st2)"
proof -
  have "decode_step st1 (token, sp, ascii ''O'', score) = Inr (fst (flush st1) @ [], None)"
    using snd_flush [of st1] by (cases "flush st1") (simp add: decode_step_def)
  moreover have "decode_loop (fst (flush st1) @ [], None) ys = Inr (fst (flush st1) @ fst st2, snd st2)"
    using assms(2) by (intro decode_loop_prefix) simp
  ultimately show ?thesis
    using assms(1) by (simp add: decode_loop_append)
qed

lemma zip4_take: "zip4 (take n as) (take n bs) (take n cs) (take n ds) = take n (zip4 as bs cs ds)"
  by (simp add: zip4_def take_zip)

lemma zip4_drop: "zip4 (drop n as) (drop n bs) (drop n cs) (drop n ds) = drop n (zip4 as bs cs ds)"
  by (simp add: zip4_def drop_zip)

lemma zip4_nth:
  "i < length (zip4 as bs cs ds) \<Longrightarrow> zip4 as bs cs ds ! i = (as ! i, bs ! i, cs ! i, ds ! i)"
  by (simp add: zip4_def)

lemma decode_entities_outside:
  assumes "labels ! i = ascii ''O''"
  shows "\<exists>before after.
      decode_entities (take i tokens) (take i spans) (take i labels) (take i scores) = Inr before
    \<and> decode_entities (drop (Suc i) tokens) (drop (Suc i) spans) (drop (Suc i) labels)
        (drop (Suc i) scores) = Inr after
    \<and> decode_entities tokens spans labels scores = Inr (before @ after)"
proof -
  let ?z = "zip4 tokens spans labels scores"
  obtain st1 where st1: "decode_loop ([], None) (take i ?z) = Inr st1"
    using decode_loop_total by blast
  obtain st2 where st2: "decode_loop ([], None) (drop (Suc i) ?z) = Inr st2"
    using decode_loop_total by blast
  have before: "decode_entities (take i tokens) (take i spans) (take i labels) (take i scores)
      = Inr (fst (flush st1))"
    using st1 by (simp add: decode_entities_def zip4_take)
  have after: "decode_entities (drop (Suc i) tokens) (drop (Suc i) spans) (drop (Suc i) labels)
        (drop (Suc i) scores) = Inr (fst (flush st2))"
    using st2 by (simp add: decode_entities_def zip4_drop)
  have "decode_entities tokens spans labels scores = Inr (fst (flush st1) @ fst (flush st2))"
  proof (cases "i < length ?z")
    case True
    have "?z ! i = (tokens ! i, spans ! i, ascii ''O'', scores ! i)"
      using True assms by (simp add: zip4_nth)
    with id_take_nth_drop [OF True]
    have split: "take i ?z @ (tokens ! i, spans ! i, ascii ''O'', scores ! i) # drop (Suc i) ?z = ?z"
      by simp
    have "decode_loop ([], None) ?z = Inr (fst (flush st1) @ fst st2, snd st2)"
      using decode_loop_outside [OF st1 st2, of "tokens ! i" "spans ! i" "scores ! i"]
      by (simp only: split)
    moreover have "fst (flush (fst (flush st1) @ fst st2, snd st2))
        = fst (flush st1) @ fst (flush st2)"
      using fst_flush_prefix [of "fst (flush st1)" "fst st2" "snd st2"] by simp
    ultimately show ?thesis
      by (simp add: decode_entities_def)
  next
    case False
    then have "take i ?z = ?z" "drop (Suc i) ?z = []"
      by simp_all
    with st1 st2 have "st2 = ([], None)" "decode_loop ([], None) ?z = Inr st1"
      by simp_all
    then show ?thesis
      by (simp add: decode_entities_def)
  qed
  with before after show ?thesis
    by simp
qed

lemma pred_labels_nth:
  "i < length pred_ids \<Longrightarrow>
   pred_labels id2l pred_ids ! i
     = (case id2l (py_str (pred_ids ! i)) of None \<Rightarrow> ascii ''O'' | Some l \<Rightarrow> l)"
  by (simp add: pred_labels_def)

text \<open>
  Claim C10. A predicted class index whose decimal string is not a key of the label map
  gets the label O. The decoder then returns, without error, exactly the entities decoded
  from the tokens before that position followed by those decoded from the tokens after
  it: the token is part of no entity and no entity extends across it.
\<close>

theorem unknown_class_index_is_outside:
  "i < length pred_ids \<and> id2l (py_str (pred_ids ! i)) = None \<longrightarrow>
     pred_labels id2l pred_ids ! i = ascii ''O''
     \<and> (\<exists>before after.
          decode_entities (take i tokens) (take i spans) (take i (pred_labels id2l pred_ids))
            (take i scores) = Inr before
        \<and> decode_entities (drop (Suc i) tokens) (drop (Suc i) spans)
            (drop (Suc i) (pred_labels id2l pred_ids)) (drop (Suc i) scores) = Inr after
        \<and> decode_entities tokens spans (pred_labels id2l pred_ids) scores
            = Inr (before @ after))"
proof
  assume "i < length pred_ids \<and> id2l (py_str (pred_ids ! i)) = None"
  then have outside: "pred_labels id2l pred_ids ! i = ascii ''O''"
    by (simp add: pred_labels_nth)
  with decode_entities_outside [OF outside, of tokens spans scores]
  show "pred_labels id2l pred_ids ! i = ascii ''O''
     \<and> (\<exists>before after.
          decode_entities (take i tokens) (take i spans) (take i (pred_labels id2l pred_ids))
            (take i scores) = Inr before
        \<and> decode_entities (drop (Suc i) tokens) (drop (Suc i) spans)
            (drop (Suc i) (pred_labels id2l pred_ids)) (drop (Suc i) scores) = Inr after
        \<and> decode_entities tokens spans (pred_labels id2l pred_ids) scores
            = Inr (before @ after))"
    by simp
qed

theorem unknown_class_index_is_outside_witness:
  "pred_labels [[49] \<mapsto> ascii ''B-PER'', [50] \<mapsto> ascii ''I-PER''] [1, 7, 2] ! 1 = ascii ''O''
   \<and> decode_entities [[97], [98], [99]] [(0, 1), (2, 3), (4, 5)]
        (pred_labels [[49] \<mapsto> ascii ''B-PER'', [50] \<mapsto> ascii ''I-PER''] [1, 7, 2])
        [1, 1, 1]
     = Inr [\<lparr>e_text = [97], e_label = ascii ''PER'', e_score = 1,
              e_start = Some 0, e_end = Some 1\<rparr>,
            \<lparr>e_text = [99], e_label = ascii ''PER'', e_score = 1,
              e_start = Some 4, e_end = Some 5\<rparr>]"
  using unknown_class_index_is_outside [of 1 "[1, 7, 2]" "[[49] \<mapsto> ascii ''B-PER'', [50] \<mapsto> ascii ''I-PER'']"
      "[[97], [98], [99]]" "[(0, 1), (2, 3), (4, 5)]" "[1, 1, 1]"]
  by (simp add: pred_labels_def decode_entities_def zip4_def decode_step_def parse_label_total
      ascii_def float_eval)

section \<open>Decoder: order of the emitted spans\<close>

lemma spans_ordered_remove: "spans_ordered (xs @ y # ys) \<Longrightarrow> spans_ordered (xs @ ys)"
  by (auto simp: spans_ordered_def sorted_wrt_append)

lemma spans_ordered_merge:
  "spans_ordered (xs @ (a, b) # (c, d) # ys) \<Longrightarrow> spans_ordered (xs @ (a, d) # ys)"
  by (fastforce simp: spans_ordered_def sorted_wrt_append)

lemma state_spans_flush: "state_spans (flush st) = state_spans st"
  by (cases st; cases "snd st") (auto simp: state_spans_def entity_offsets_def)

lemma decode_step_spans:
  assumes "decode_step st (token, sp, label, score) = Inr st'"
    and "state_spans st = map Some bs"
    and "spans_ordered (bs @ sp # rest)"
  shows "\<exists>bs'. state_spans st' = map Some bs' \<and> spans_ordered (bs' @ rest)"
proof -
  obtain prefix tag where parsed: "parse_label label = Inr (prefix, tag)"
    by (metis parse_label_total surj_pair)
  let ?new = "\<lparr>c_text = token, c_label = tag, c_scores = [score],
               c_start = fst sp, c_end = snd sp\<rparr>"
  consider (outside) "st' = flush st"
    | (start) "st' = (fst (flush st), Some ?new)"
    | (extend) c where "snd st = Some c" "st' = (fst st, Some (c\<lparr>c_text := c_text c @ ascii '' '' @ token,
                                      c_scores := c_scores c @ [score], c_end := snd sp\<rparr>))"
    using assms(1) parsed by (auto simp: decode_step_def split: if_splits option.splits)
  then show ?thesis
  proof cases
    case outside
    then show ?thesis
      using assms(2,3) spans_ordered_remove by (auto simp: state_spans_flush)
  next
    case start
    have "map entity_offsets (fst (flush st)) = state_spans st"
      using state_spans_flush [of st] snd_flush [of st] by (simp add: state_spans_def)
    then have "state_spans st' = map Some (bs @ [sp])"
      using start assms(2) by (simp add: state_spans_def)
    then show ?thesis
      using assms(3) by fastforce
  next
    case extend
    from extend(1) assms(2) obtain bs0 where
      bs: "bs = bs0 @ [(c_start c, c_end c)]" and ents: "map entity_offsets (fst st) = map Some bs0"
      by (auto simp: state_spans_def append_eq_map_conv)
    from extend(2) ents have "state_spans st' = map Some (bs0 @ [(c_start c, snd sp)])"
      by (simp add: state_spans_def)
    moreover have "spans_ordered (bs0 @ (c_start c, snd sp) # rest)"
      using assms(3) bs spans_ordered_merge [of bs0 "c_start c" "c_end c" "fst sp" "snd sp" rest]
      by simp
    ultimately show ?thesis
      by (metis append.assoc append_Cons append_Nil)
  qed
qed

lemma decode_loop_spans:
  assumes "decode_loop st items = Inr st'"
    and "state_spans st = map Some bs"
    and "spans_ordered (bs @ map (\<lambda>item. fst (snd item)) items)"
  shows "\<exists>bs'. state_spans st' = map Some bs' \<and> spans_ordered bs'"
  using assms
proof (induction items arbitrary: st bs)
  case Nil
  then show ?case by auto
next
  case (Cons item items)
  obtain token sp label score where item: "item = (token, sp, label, score)"
    by (cases item) auto
  obtain st1 where step: "decode_step st (token, sp, label, score) = Inr st1"
    using decode_step_total by blast
  with Cons.prems(1) item have rest: "decode_loop st1 items = Inr st'"
    by simp
  from Cons.prems(3) item
  have "spans_ordered (bs @ sp # map (\<lambda>item. fst (snd item)) items)"
    by simp
  from decode_step_spans [OF step Cons.prems(2) this]
  obtain bs1 where "state_spans st1 = map Some bs1"
    and "spans_ordered (bs1 @ map (\<lambda>item. fst (snd item)) items)"
    by blast
  with Cons.IH [OF rest] show ?case
    by blast
qed

lemma zip4_spans:
  "map (\<lambda>item. fst (snd item)) (zip4 tokens spans labels scores)
     = take (length (zip4 tokens spans labels scores)) spans"
  by (rule nth_equalityI) (auto simp: zip4_def)

lemma spans_ordered_take: "spans_ordered xs \<Longrightarrow> spans_ordered (take n xs)"
  by (auto simp: spans_ordered_def sorted_wrt_take dest: in_set_takeD)


lemma finditer_nonspace_spans:
  assumes "case st of None \<Rightarrow> True | Some (s0, tok) \<Rightarrow> s0 < i"
  shows "(\<forall>(tok, s, e) \<in> set (finditer_nonspace i st cs).
            (case st of None \<Rightarrow> i | Some (s0, tok) \<Rightarrow> s0) \<le> s \<and> s < e)
       \<and> sorted_wrt (\<lambda>a b. snd (snd a) \<le> fst (snd b)) (finditer_nonspace i st cs)"
  using assms
proof (induction i st cs rule: finditer_nonspace.induct)
  case (1 i)
  then show ?case by simp
next
  case (2 i s tok)
  then show ?case by simp
next
  case (3 i c cs)
  show ?case
  proof (cases "py_isspace c")
    case True
    with "3.IH"(1) show ?thesis by fastforce
  next
    case False
    with "3.IH"(2) show ?thesis by fastforce
  qed
next
  case (4 i s tok c cs)
  show ?case
  proof (cases "py_isspace c")
    case True
    with "4.IH"(1) "4.prems" show ?thesis by fastforce
  next
    case False
    with "4.IH"(2) "4.prems" show ?thesis by fastforce
  qed
qed

lemma ws_spans_ordered: "spans_ordered (snd (ws_tokens_with_spans t))"
proof -
  let ?ms = "finditer_nonspace 0 None t"
  have "(\<forall>(tok, s, e) \<in> set ?ms. 0 \<le> s \<and> s < e)
      \<and> sorted_wrt (\<lambda>a b. snd (snd a) \<le> fst (snd b)) ?ms"
    using finditer_nonspace_spans [where st = None and i = 0 and cs = t] by simp
  then show ?thesis
    by (auto simp: ws_tokens_with_spans_def Let_def spans_ordered_def sorted_wrt_map split_beta
        elim: sorted_wrt_mono_rel [rotated])
qed

lemma spans_ordered_increasing:
  "spans_ordered bs \<Longrightarrow> sorted_wrt (\<lambda>a b. fst a < fst b \<and> snd a \<le> fst b) bs"
  unfolding spans_ordered_def
  by (rule sorted_wrt_mono_rel [of bs "\<lambda>a b. snd a \<le> fst b"]) auto

text \<open>
  Claim C7. When the token spans are ordered (each non-empty, each ending no later than
  a later one starts), the decoder returns entities that all carry both offsets, each
  with its end at least its start, and for any two of them the earlier one starts
  strictly before the later one and ends no later than the later one starts. This holds
  for all tokens, labels and scores, of any lengths. The spans that the whitespace
  tokenizer returns for any text are ordered in this sense.
\<close>

theorem entity_spans_ordered:
  "(spans_ordered spans \<longrightarrow>
      (\<exists>ents bs. decode_entities tokens spans labels scores = Inr ents
         \<and> map entity_offsets ents = map Some bs
         \<and> (\<forall>(s, t) \<in> set bs. s \<le> t)
         \<and> sorted_wrt (\<lambda>a b. fst a < fst b \<and> snd a \<le> fst b) bs))
   \<and> spans_ordered (snd (ws_tokens_with_spans text))"
proof (intro conjI impI)
  assume ordered: "spans_ordered spans"
  let ?z = "zip4 tokens spans labels scores"
  obtain st where loop: "decode_loop ([], None) ?z = Inr st"
    using decode_loop_total by blast
  have "spans_ordered ([] @ map (\<lambda>item. fst (snd item)) ?z)"
    using ordered by (simp add: zip4_spans spans_ordered_take)
  with decode_loop_spans [OF loop, of "[]"]
  obtain bs where bs: "state_spans st = map Some bs" and ord: "spans_ordered bs"
    by (auto simp: state_spans_def)
  have "map entity_offsets (fst (flush st)) = state_spans (flush st)"
    using snd_flush [of st] by (simp add: state_spans_def)
  with bs have "map entity_offsets (fst (flush st)) = map Some bs"
    by (simp add: state_spans_flush)
  moreover have "\<forall>(s, t) \<in> set bs. s \<le> t"
    using ord by (fastforce simp: spans_ordered_def)
  moreover note spans_ordered_increasing [OF ord]
  moreover have "decode_entities tokens spans labels scores = Inr (fst (flush st))"
    using loop by (simp add: decode_entities_def)
  ultimately show "\<exists>ents bs. decode_entities tokens spans labels scores = Inr ents
         \<and> map entity_offsets ents = map Some bs
         \<and> (\<forall>(s, t) \<in> set bs. s \<le> t)
         \<and> sorted_wrt (\<lambda>a b. fst a < fst b \<and> snd a \<le> fst b) bs"
    by blast
next
  show "spans_ordered (snd (ws_tokens_with_spans text))"
    by (rule ws_spans_ordered)
qed


theorem entity_spans_ordered_witness:
  "snd (ws_tokens_with_spans [97, 98, 32, 99, 100, 32, 101]) = [(0, 2), (3, 5), (6, 7)]
   \<and> spans_ordered [(0, 2), (3, 5), (6, 7)]
   \<and> (\<exists>ents bs. decode_entities [[97, 98], [99, 100], [101]] [(0, 2), (3, 5), (6, 7)]
          [ascii ''B-PER'', ascii ''I-PER'', ascii ''B-LOC''] [1, 1, 1] = Inr ents
         \<and> map entity_offsets ents = map Some bs
         \<and> (\<forall>(s, t) \<in> set bs. s \<le> t)
         \<and> sorted_wrt (\<lambda>a b. fst a < fst b \<and> snd a \<le> fst b) bs)"
  using entity_spans_ordered [of "[(0, 2), (3, 5), (6, 7)]" "[[97, 98], [99, 100], [101]]"
      "[ascii ''B-PER'', ascii ''I-PER'', ascii ''B-LOC'']" "[1, 1, 1]"
      "[97, 98, 32, 99, 100, 32, 101]"]
  by (simp add: ws_tokens_with_spans_def py_isspace_def)

end
